theory Spec2Isabelle
  imports Complex_Main "HOL-Library.AList" "HOL-Library.Word"
begin

unbundle bit_operations_syntax

section \<open>Mini-Lop: a shallow embedding of the fuzzer's core\<close>

text \<open>
  The Python sources are \<^verbatim>\<open>feedback.py\<close>, \<^verbatim>\<open>seed.py\<close>, \<^verbatim>\<open>schedule.py\<close>,
  \<^verbatim>\<open>mutation.py\<close> and \<^verbatim>\<open>main.py\<close>. Python integers are \<open>int\<close> (or \<open>nat\<close> where the
  source only ever produces a length or an index), Python floats are modelled by \<open>real\<close>
  (finite values, exact arithmetic), byte strings are lists of 8-bit words, exceptions are
  values of the type \<open>error\<close>.
\<close>

datatype error = IndexError | ValueError | StructError | FileNotFoundError | SameFileError

type_synonym byte = "8 word"
type_synonym bytes = "byte list"

subsection \<open>feedback.py: the crash classifier\<close>

definition crash_signals :: "(int \<times> string) list" where
  "crash_signals =
     [(1, ''SIGHUP''), (2, ''SIGINT''), (3, ''SIGQUIT''), (4, ''SIGILL''),
      (6, ''SIGABRT''), (7, ''SIGBUS''), (8, ''SIGFPE''), (9, ''SIGKILL''),
      (11, ''SIGSEGV''), (13, ''SIGPIPE''), (14, ''SIGALRM''), (15, ''SIGTERM''),
      (24, ''SIGXCPU''), (25, ''SIGXFSZ''), (31, ''SIGSYS'')]"

text \<open>\<^verbatim>\<open>check_crash(status_code)\<close>; the two \<^verbatim>\<open>print\<close> calls are not modelled.\<close>

definition check_crash :: "int \<Rightarrow> bool" where
  "check_crash status_code =
     (let is_core_dump = ((status_code AND 0x80) \<noteq> 0);
          actual_signal = status_code AND 0x7f
      in if map_of crash_signals actual_signal \<noteq> None \<or> is_core_dump then True else False)"

subsection \<open>seed.py\<close>

text \<open>
  A \<^verbatim>\<open>Seed\<close> object. \<open>file_size\<close> is what \<^verbatim>\<open>os.path.getsize(path)\<close> returned when the
  seed was created.
\<close>

record seed =
  path :: string
  seed_id :: nat
  coverage :: "nat set"
  exec_time :: real
  file_size :: nat
  favored :: bool

definition mark_favored :: "seed \<Rightarrow> seed" where
  "mark_favored s = s\<lparr>favored := True\<rparr>"

definition unmark_favored :: "seed \<Rightarrow> seed" where
  "unmark_favored s = s\<lparr>favored := False\<rparr>"

definition get_valuation :: "seed \<Rightarrow> real" where
  "get_valuation s = exec_time s * real (file_size s)"

subsection \<open>schedule.py: the power schedule\<close>

text \<open>Python's \<^verbatim>\<open>int(x)\<close> on a float truncates towards zero.\<close>

definition py_int :: "real \<Rightarrow> int" where
  "py_int x = (if 0 \<le> x then \<lfloor>x\<rfloor> else \<lceil>x\<rceil>)"

text \<open>
  Python's two-argument \<^verbatim>\<open>max(a, b)\<close> and \<^verbatim>\<open>min(a, b)\<close> return the first argument
  unless the second is strictly larger (smaller).
\<close>

definition py_max :: "'a::linorder \<Rightarrow> 'a \<Rightarrow> 'a" where
  "py_max a b = (if b > a then b else a)"

definition py_min :: "'a::linorder \<Rightarrow> 'a \<Rightarrow> 'a" where
  "py_min a b = (if b < a then b else a)"

definition get_power_schedule :: "seed \<Rightarrow> real \<Rightarrow> int" where
  "get_power_schedule s avg_exec_time =
     (let perf_score = 100;
          perf_score =
            (if exec_time s > 0 \<and> avg_exec_time > 0
             then (let time_factor = avg_exec_time / exec_time s;
                       time_factor = py_min (py_max time_factor 0.1) 3.0
                   in perf_score * time_factor)
             else perf_score);
          coverage_factor = 1 + real (card (coverage s)) / 100;
          perf_score = perf_score * coverage_factor;
          max_mutations = 1000;
          mutations = py_int ((perf_score / 100) * 100);
          mutations = py_min mutations max_mutations;
          mutations = py_max mutations 1
      in mutations)"

subsection \<open>main.py: favored recomputation\<close>

text \<open>
  The body of the loop over \<^verbatim>\<open>edge_to_seeds.items()\<close>. The list comprehension
  \<^verbatim>\<open>[seed_queue[seed_id] for seed_id in seed_ids]\<close> raises IndexError at an id beyond the
  queue; \<^verbatim>\<open>seeds.sort(key=...)\<close> is a stable sort, as \<open>sort_key\<close> is; \<^verbatim>\<open>seeds[0]\<close>
  raises IndexError on an empty list. The list \<^verbatim>\<open>seeds\<close> holds references to the objects
  of the queue, so the model sorts the queue positions by the valuation of the seed found
  there and marks the seed at the first position.
\<close>

definition mark_edge :: "seed list \<Rightarrow> nat list \<Rightarrow> error + seed list" where
  "mark_edge seed_queue seed_ids =
     (if \<exists>seed_id \<in> set seed_ids. length seed_queue \<le> seed_id then Inl IndexError
      else (case sort_key (\<lambda>seed_id. get_valuation (seed_queue ! seed_id)) seed_ids of
              [] \<Rightarrow> Inl IndexError
            | first # _ \<Rightarrow> Inr (seed_queue[first := mark_favored (seed_queue ! first)])))"

fun mark_edges :: "seed list \<Rightarrow> (nat \<times> nat list) list \<Rightarrow> error + seed list" where
  "mark_edges seed_queue [] = Inr seed_queue"
| "mark_edges seed_queue ((edge, seed_ids) # items) =
     (case mark_edge seed_queue seed_ids of
        Inl e \<Rightarrow> Inl e
      | Inr seed_queue' \<Rightarrow> mark_edges seed_queue' items)"

text \<open>
  \<^verbatim>\<open>update_favored_seeds(seed_queue, edge_to_seeds)\<close>. The dictionary is the list of its
  items in insertion order. The function mutates the seeds in place and returns nothing;
  the model returns the queue after the pass.
\<close>

definition update_favored_seeds ::
  "seed list \<Rightarrow> (nat \<times> nat list) list \<Rightarrow> error + seed list" where
  "update_favored_seeds seed_queue edge_to_seeds =
     mark_edges (map unmark_favored seed_queue) edge_to_seeds"

text \<open>
  What the specification of the pass says of one seed list: the queue position \<open>i\<close> is among
  \<open>seed_ids\<close> and no seed of the list has a smaller pair (valuation, id).
\<close>

definition minimal_for :: "seed list \<Rightarrow> nat list \<Rightarrow> nat \<Rightarrow> bool" where
  "minimal_for seed_queue seed_ids i \<longleftrightarrow>
     i \<in> set seed_ids \<and>
     list_all (\<lambda>j. get_valuation (seed_queue ! i) < get_valuation (seed_queue ! j)
                  \<or> (get_valuation (seed_queue ! i) = get_valuation (seed_queue ! j)
                      \<and> seed_id (seed_queue ! i) \<le> seed_id (seed_queue ! j))) seed_ids"

text \<open>
  A well-formed edge-to-seed index: every list is non-empty, in ascending order, and names
  positions of the queue. Separately, each seed's id is its queue position.
\<close>

definition index_ok :: "seed list \<Rightarrow> (nat \<times> nat list) list \<Rightarrow> bool" where
  "index_ok seed_queue edge_to_seeds \<longleftrightarrow>
     list_all (\<lambda>(edge, seed_ids). seed_ids \<noteq> [] \<and> sorted seed_ids
                 \<and> list_all (\<lambda>seed_id. seed_id < length seed_queue) seed_ids) edge_to_seeds"

definition ids_are_positions :: "seed list \<Rightarrow> bool" where
  "ids_are_positions seed_queue \<longleftrightarrow>
     list_all (\<lambda>i. seed_id (seed_queue ! i) = i) [0..<length seed_queue]"

subsection \<open>schedule.py: seed selection\<close>

text \<open>
  \<^verbatim>\<open>random.choice(seq)\<close> raises IndexError on an empty sequence and otherwise returns the
  element at a random index; the model takes the random draw \<open>r\<close> as an argument and
  reduces it modulo the length.
\<close>

definition random_choice :: "'a list \<Rightarrow> nat \<Rightarrow> error + 'a" where
  "random_choice xs r = (if xs = [] then Inl IndexError else Inr (xs ! (r mod length xs)))"

type_synonym selection = "seed option \<times> nat set option \<times> nat option \<times> bool"

text \<open>
  \<^verbatim>\<open>select_next_seed(seed_queue, seeds_used_in_cycle=None, cycle_seed_count=None)\<close>.
  \<open>coin\<close> is the outcome of \<^verbatim>\<open>random.random() < 0.9\<close> and \<open>r\<close> the draw of
  \<^verbatim>\<open>random.choice\<close>. The result is the tuple the function returns: the selected seed,
  the used set, the cycle size and the new-cycle flag.
\<close>

definition select_next_seed ::
  "seed list \<Rightarrow> nat set option \<Rightarrow> nat option \<Rightarrow> bool \<Rightarrow> nat \<Rightarrow> error + selection" where
  "select_next_seed seed_queue seeds_used_in_cycle cycle_seed_count coin r =
     (if seed_queue = [] then Inr (None, seeds_used_in_cycle, cycle_seed_count, False)
      else
        (let used = (case seeds_used_in_cycle of None \<Rightarrow> {} | Some u \<Rightarrow> u);
             count = (case cycle_seed_count of None \<Rightarrow> length seed_queue | Some c \<Rightarrow> c);
             new_cycle = (card used \<ge> count);
             used = (if new_cycle then {} else used);
             count = (if new_cycle then length seed_queue else count);
             unused_seeds = filter (\<lambda>s. seed_id s \<notin> used) seed_queue;
             unused_favored = filter favored unused_seeds
         in case (if unused_favored \<noteq> [] \<and> coin
                  then random_choice unused_favored r
                  else random_choice unused_seeds r) of
              Inl e \<Rightarrow> Inl e
            | Inr selected_seed \<Rightarrow>
                Inr (Some selected_seed, Some (insert (seed_id selected_seed) used),
                     Some count, new_cycle)))"

text \<open>
  A sequence of calls on one queue, each call given the used set and the cycle size the
  previous call returned, as the main loop does. The result lists what each call returned;
  an exception ends the sequence.
\<close>

fun select_calls ::
  "seed list \<Rightarrow> nat set option \<Rightarrow> nat option \<Rightarrow> (bool \<times> nat) list \<Rightarrow> error + selection list" where
  "select_calls seed_queue used count [] = Inr []"
| "select_calls seed_queue used count ((coin, r) # draws) =
     (case select_next_seed seed_queue used count coin r of
        Inl e \<Rightarrow> Inl e
      | Inr (selected, used', count', new_cycle) \<Rightarrow>
          (case select_calls seed_queue used' count' draws of
             Inl e \<Rightarrow> Inl e
           | Inr calls \<Rightarrow> Inr ((selected, used', count', new_cycle) # calls)))"

text \<open>The parts of what a call returned.\<close>

definition returned_id :: "selection \<Rightarrow> nat option" where
  "returned_id call = map_option seed_id (fst call)"

definition returned_used :: "selection \<Rightarrow> nat set option" where
  "returned_used call = fst (snd call)"

definition returned_count :: "selection \<Rightarrow> nat option" where
  "returned_count call = fst (snd (snd call))"

definition returned_new_cycle :: "selection \<Rightarrow> bool" where
  "returned_new_cycle call = snd (snd (snd call))"

text \<open>The used set and the cycle size a call works with when given \<^verbatim>\<open>None\<close>.\<close>

definition used_of :: "nat set option \<Rightarrow> nat set" where
  "used_of used = (case used of None \<Rightarrow> {} | Some u \<Rightarrow> u)"

definition count_of :: "seed list \<Rightarrow> nat option \<Rightarrow> nat" where
  "count_of seed_queue count = (case count of None \<Rightarrow> length seed_queue | Some c \<Rightarrow> c)"

text \<open>
  What the specification of the scheduler says of one call, given the used set and cycle size passed in:
  the new-cycle flag is returned exactly at a cycle boundary; at a boundary the used set
  is cleared and the cycle size becomes the queue length; the selected seed is a seed of
  the queue whose id was not in the used set, and its id is added to the used set.
\<close>

definition call_ok :: "seed list \<Rightarrow> nat set option \<Rightarrow> nat option \<Rightarrow> selection \<Rightarrow> bool" where
  "call_ok seed_queue used count call \<longleftrightarrow>
     (let boundary = (card (used_of used) \<ge> count_of seed_queue count);
          cleared = (if boundary then {} else used_of used)
      in returned_new_cycle call = boundary
         \<and> (\<exists>s \<in> set seed_queue. fst call = Some s \<and> seed_id s \<notin> cleared
               \<and> returned_used call = Some (insert (seed_id s) cleared))
         \<and> returned_count call =
               Some (if boundary then length seed_queue else count_of seed_queue count))"

subsection \<open>mutation.py: random draws, files and \<^verbatim>\<open>struct\<close>\<close>

text \<open>
  The module \<^verbatim>\<open>random\<close> is a stream of draws still to come. \<^verbatim>\<open>random.randint(a, b)\<close>
  raises ValueError on an empty range and otherwise returns a value between \<open>a\<close> and \<open>b\<close>,
  both included; \<^verbatim>\<open>random.choice\<close> is as above. Both consume one draw.
\<close>

type_synonym rng = "nat \<Rightarrow> nat"

definition rng_tail :: "rng \<Rightarrow> rng" where
  "rng_tail g = (\<lambda>n. g (Suc n))"

definition randint :: "int \<Rightarrow> int \<Rightarrow> rng \<Rightarrow> error + (int \<times> rng)" where
  "randint a b g =
     (if b < a then Inl ValueError
      else Inr (a + int (g 0 mod nat (b - a + 1)), rng_tail g))"

definition choice :: "'a list \<Rightarrow> rng \<Rightarrow> error + ('a \<times> rng)" where
  "choice xs g =
     (case random_choice xs (g 0) of Inl e \<Rightarrow> Inl e | Inr x \<Rightarrow> Inr (x, rng_tail g))"

text \<open>
  The files the fuzzer reads and writes, by path. Opening a missing file for reading
  raises FileNotFoundError; writing is assumed to succeed.
\<close>

type_synonym files = "string \<Rightarrow> bytes option"

record config =
  queue_folder :: string
  crashes_folder :: string
  current_input :: string

text \<open>
  \<^verbatim>\<open>struct.pack_into(fmt, data, idx, value)\<close> and \<^verbatim>\<open>struct.unpack_from(fmt, data, idx)\<close>
  for the formats \<^verbatim>\<open><h\<close>, \<^verbatim>\<open><i\<close>, \<^verbatim>\<open><q\<close>: little-endian two's complement of 2, 4 and 8
  bytes, given here by the byte count \<open>sz\<close>. \<^verbatim>\<open>struct.error\<close> is raised when the value does not
  fit or the buffer is too short.
\<close>

definition pack_le :: "nat \<Rightarrow> int \<Rightarrow> bytes" where
  "pack_le sz v = map (\<lambda>k. word_of_int (v div 256 ^ k)) [0..<sz]"

definition pack_into :: "nat \<Rightarrow> bytes \<Rightarrow> nat \<Rightarrow> int \<Rightarrow> error + bytes" where
  "pack_into sz data idx v =
     (if length data < idx + sz \<or> v < - (2 ^ (8 * sz - 1)) \<or> 2 ^ (8 * sz - 1) \<le> v
      then Inl StructError
      else Inr (take idx data @ pack_le sz v @ drop (idx + sz) data))"

definition unpack_from :: "nat \<Rightarrow> bytes \<Rightarrow> nat \<Rightarrow> error + int" where
  "unpack_from sz data idx =
     (if length data < idx + sz then Inl StructError
      else (let u = (\<Sum>k\<leftarrow>[0..<sz]. uint (data ! (idx + k)) * 256 ^ k)
            in Inr (if 2 ^ (8 * sz - 1) \<le> u then u - 2 ^ (8 * sz) else u)))"

definition INTERESTING_32 :: "int list" where
  "INTERESTING_32 =
     [0, -2147483648, 2147483647, -1, 1, -32768, 32767, -65536, 65535, -100663046, 100663046]"

definition INTERESTING_64 :: "int list" where
  "INTERESTING_64 =
     [0, -1, 1, -4294967296, 4294967296, -2147483648, 2147483647,
      9223372036854775807, -9223372036854775808]"

subsection \<open>mutation.py: the havoc mutators\<close>

text \<open>
  Each mutator changes the bytearray \<^verbatim>\<open>data\<close> in place; the model returns the new
  contents and the rest of the random stream.
\<close>

definition bit_flip_mutation :: "bytes \<Rightarrow> rng \<Rightarrow> error + (bytes \<times> rng)" where
  "bit_flip_mutation data g =
     (case randint 0 (int (length data) - 1) g of
        Inl e \<Rightarrow> Inl e
      | Inr (idx, g) \<Rightarrow>
          (case randint 0 7 g of
             Inl e \<Rightarrow> Inl e
           | Inr (bit_pos, g) \<Rightarrow>
               Inr (data[nat idx := (data ! nat idx) XOR push_bit (nat bit_pos) 1], g)))"

definition integer_mutation :: "bytes \<Rightarrow> rng \<Rightarrow> error + (bytes \<times> rng)" where
  "integer_mutation data g =
     (case choice [(2, -32768, 32767),
                   (4, -2147483648, 2147483647),
                   (8, -9223372036854775808, 9223372036854775807)] g of
        Inl e \<Rightarrow> Inl e
      | Inr ((sz, min_val, max_val), g) \<Rightarrow>
          if length data < sz then Inr (data, g)
          else (case randint 0 (int (length data) - int sz) g of
                  Inl e \<Rightarrow> Inl e
                | Inr (idx, g) \<Rightarrow>
                    (case randint min_val max_val g of
                       Inl e \<Rightarrow> Inl e
                     | Inr (v, g) \<Rightarrow>
                         (case pack_into sz data (nat idx) v of
                            Inl e \<Rightarrow> Inl e
                          | Inr data' \<Rightarrow> Inr (data', g)))))"

definition interesting_value_mutation :: "bytes \<Rightarrow> rng \<Rightarrow> error + (bytes \<times> rng)" where
  "interesting_value_mutation data g =
     (case choice [(2, [-32768, 32767, -1, 0, 1, -128, 127, 255, -256, 256, 65535 AND 0x7fff]),
                   (4, INTERESTING_32),
                   (8, INTERESTING_64)] g of
        Inl e \<Rightarrow> Inl e
      | Inr ((sz, interesting_vals), g) \<Rightarrow>
          if length data < sz then Inr (data, g)
          else (case randint 0 (int (length data) - int sz) g of
                  Inl e \<Rightarrow> Inl e
                | Inr (idx, g) \<Rightarrow>
                    (case choice interesting_vals g of
                       Inl e \<Rightarrow> Inl e
                     | Inr (v, g) \<Rightarrow>
                         (case pack_into sz data (nat idx) v of
                            Inr data' \<Rightarrow> Inr (data', g)
                          | Inl e \<Rightarrow>
                              if e \<noteq> StructError then Inl e
                              else (case (if v > 0
                                          then pack_into sz data (nat idx)
                                                 (push_bit (sz * 8 - 1) 1 - 1)
                                          else pack_into sz data (nat idx)
                                                 (- push_bit (sz * 8 - 1) 1)) of
                                      Inl e \<Rightarrow> Inl e
                                    | Inr data' \<Rightarrow> Inr (data', g))))))"

definition chunk_replacement_mutation :: "bytes \<Rightarrow> rng \<Rightarrow> error + (bytes \<times> rng)" where
  "chunk_replacement_mutation data g =
     (if length data < 4 then Inr (data, g)
      else (case randint 2 (py_min 32 (int (length data) div 2)) g of
              Inl e \<Rightarrow> Inl e
            | Inr (chunk_size, g) \<Rightarrow>
                (case randint 0 (int (length data) - chunk_size) g of
                   Inl e \<Rightarrow> Inl e
                 | Inr (src_pos, g) \<Rightarrow>
                     (case randint 0 (int (length data) - chunk_size) g of
                        Inl e \<Rightarrow> Inl e
                      | Inr (dst_pos, g) \<Rightarrow>
                          (let chunk = take (nat chunk_size) (drop (nat src_pos) data)
                           in Inr (take (nat dst_pos) data @ chunk
                                     @ drop (nat dst_pos + nat chunk_size) data, g))))))"

definition arithmetic_mutation :: "bytes \<Rightarrow> rng \<Rightarrow> error + (bytes \<times> rng)" where
  "arithmetic_mutation data g =
     (case choice [(2, -256, 256), (4, -65536, 65536), (8, -4294967296, 4294967296)] g of
        Inl e \<Rightarrow> Inl e
      | Inr ((sz, min_delta, max_delta), g) \<Rightarrow>
          if length data < sz then Inr (data, g)
          else (case randint 0 (int (length data) - int sz) g of
                  Inl e \<Rightarrow> Inl e
                | Inr (idx, g) \<Rightarrow>
                    (case unpack_from sz data (nat idx) of
                       Inl e \<Rightarrow> Inl e
                     | Inr v \<Rightarrow>
                         (case randint min_delta max_delta g of
                            Inl e \<Rightarrow> Inl e
                          | Inr (delta, g) \<Rightarrow>
                              (case pack_into sz data (nat idx) (v + delta) of
                                 Inr data' \<Rightarrow> Inr (data', g)
                               | Inl e \<Rightarrow>
                                   if e \<noteq> StructError then Inl e
                                   else (case (if delta > 0
                                               then pack_into sz data (nat idx) min_delta
                                               else pack_into sz data (nat idx) max_delta) of
                                           Inl e \<Rightarrow> Inl e
                                         | Inr data' \<Rightarrow> Inr (data', g)))))))"

definition dictionary_insert_mutation ::
  "bytes list \<Rightarrow> bytes \<Rightarrow> rng \<Rightarrow> error + (bytes \<times> rng)" where
  "dictionary_insert_mutation dictionary data g =
     (if dictionary = [] then Inr (data, g)
      else (case choice dictionary g of
              Inl e \<Rightarrow> Inl e
            | Inr (token, g) \<Rightarrow>
                if length data < 2 then Inr (data @ token, g)
                else (case randint 0 (int (length data) - 1) g of
                        Inl e \<Rightarrow> Inl e
                      | Inr (pos, g) \<Rightarrow>
                          Inr (take (nat pos) data @ token @ drop (nat pos) data, g))))"

definition dictionary_replace_mutation ::
  "bytes list \<Rightarrow> bytes \<Rightarrow> rng \<Rightarrow> error + (bytes \<times> rng)" where
  "dictionary_replace_mutation dictionary data g =
     (if dictionary = [] \<or> length data < 2 then Inr (data, g)
      else (case choice dictionary g of
              Inl e \<Rightarrow> Inl e
            | Inr (token, g) \<Rightarrow>
                if length token > length data then Inr (data, g)
                else (case randint 0 (int (length data) - int (length token)) g of
                        Inl e \<Rightarrow> Inl e
                      | Inr (pos, g) \<Rightarrow>
                          Inr (take (nat pos) data @ token
                                 @ drop (nat pos + length token) data, g))))"

text \<open>One round of the loop \<^verbatim>\<open>for _ in range(num_mutations)\<close> of \<^verbatim>\<open>HavocMutator.mutate\<close>.\<close>

definition havoc_round :: "bytes list \<Rightarrow> bytes \<Rightarrow> rng \<Rightarrow> error + (bytes \<times> rng)" where
  "havoc_round dictionary data g =
     (case randint 0 6 g of
        Inl e \<Rightarrow> Inl e
      | Inr (mutation_choice, g) \<Rightarrow>
          if mutation_choice = 0 then bit_flip_mutation data g
          else if mutation_choice = 1 then integer_mutation data g
          else if mutation_choice = 2 then interesting_value_mutation data g
          else if mutation_choice = 3 then chunk_replacement_mutation data g
          else if mutation_choice = 4 then dictionary_insert_mutation dictionary data g
          else if mutation_choice = 5 then dictionary_replace_mutation dictionary data g
          else arithmetic_mutation data g)"

fun havoc_rounds :: "bytes list \<Rightarrow> nat \<Rightarrow> bytes \<Rightarrow> rng \<Rightarrow> error + (bytes \<times> rng)" where
  "havoc_rounds dictionary 0 data g = Inr (data, g)"
| "havoc_rounds dictionary (Suc n) data g =
     (case havoc_round dictionary data g of
        Inl e \<Rightarrow> Inl e
      | Inr (data', g') \<Rightarrow> havoc_rounds dictionary n data' g')"

text \<open>
  What \<^verbatim>\<open>HavocMutator.mutate\<close> does to the bytes it has read, for at least 8 of them:
  the number of rounds is drawn, then the rounds are run.
\<close>

definition havoc_bytes :: "bytes list \<Rightarrow> bytes \<Rightarrow> rng \<Rightarrow> error + (bytes \<times> rng)" where
  "havoc_bytes dictionary data g =
     (case randint 1 (py_max 4 (int (length data) div 100)) g of
        Inl e \<Rightarrow> Inl e
      | Inr (num_mutations, g) \<Rightarrow> havoc_rounds dictionary (nat num_mutations) data g)"

text \<open>
  \<^verbatim>\<open>HavocMutator.mutate(seed)\<close>; \<open>conf\<close> and \<open>dictionary\<close> are \<^verbatim>\<open>self.conf\<close> and
  \<^verbatim>\<open>self.dictionary\<close>. A file shorter than 8 bytes makes the method return before
  anything is written.
\<close>

definition havoc_mutate ::
  "config \<Rightarrow> bytes list \<Rightarrow> seed \<Rightarrow> files \<Rightarrow> rng \<Rightarrow> error + (files \<times> rng)" where
  "havoc_mutate conf dictionary seed fs g =
     (case fs (path seed) of
        None \<Rightarrow> Inl FileNotFoundError
      | Some data \<Rightarrow>
          if length data < 8 then Inr (fs, g)
          else (case havoc_bytes dictionary data g of
                  Inl e \<Rightarrow> Inl e
                | Inr (data', g') \<Rightarrow> Inr (fs(current_input conf \<mapsto> data'), g')))"

subsection \<open>mutation.py: the splice mutator\<close>

text \<open>
  \<^verbatim>\<open>SpliceMutator.mutate(seed, seed_queue)\<close>, from the choice of the partner to the
  write of the spliced bytes: the partner is drawn among the seeds with another id, both
  files are read, and unless one of them is shorter than 4 bytes the two split points are
  drawn and \<^verbatim>\<open>data1[:split_point1] + data2[split_point2:]\<close> is written to
  \<open>current_input\<close>. The result is the files and the random stream with which the method
  goes on to call \<^verbatim>\<open>self.havoc_mutator.mutate(seed)\<close>, which it does on both paths.
\<close>

definition splice_write ::
  "config \<Rightarrow> seed \<Rightarrow> seed list \<Rightarrow> files \<Rightarrow> rng \<Rightarrow> error + (files \<times> rng)" where
  "splice_write conf seed seed_queue fs g =
     (let other_seeds = filter (\<lambda>s. seed_id s \<noteq> seed_id seed) seed_queue
      in case choice other_seeds g of
           Inl e \<Rightarrow> Inl e
         | Inr (other_seed, g) \<Rightarrow>
             (case fs (path seed) of
                None \<Rightarrow> Inl FileNotFoundError
              | Some data1 \<Rightarrow>
                  (case fs (path other_seed) of
                     None \<Rightarrow> Inl FileNotFoundError
                   | Some data2 \<Rightarrow>
                       if length data1 < 4 \<or> length data2 < 4 then Inr (fs, g)
                       else (case randint 1 (int (length data1) - 2) g of
                               Inl e \<Rightarrow> Inl e
                             | Inr (split_point1, g) \<Rightarrow>
                                 (case randint 1 (int (length data2) - 2) g of
                                    Inl e \<Rightarrow> Inl e
                                  | Inr (split_point2, g) \<Rightarrow>
                                      (let spliced_data = take (nat split_point1) data1
                                             @ drop (nat split_point2) data2
                                       in Inr (fs(current_input conf \<mapsto> spliced_data), g)))))))"

text \<open>
  \<^verbatim>\<open>SpliceMutator.mutate(seed, seed_queue)\<close>. Its own \<^verbatim>\<open>HavocMutator\<close> is built from the
  same configuration, so it has the same dictionary. With fewer than two seeds it is the
  havoc mutator; otherwise the havoc mutator runs on the seed after \<open>splice_write\<close>.
\<close>

definition splice_mutate ::
  "config \<Rightarrow> bytes list \<Rightarrow> seed \<Rightarrow> seed list \<Rightarrow> files \<Rightarrow> rng \<Rightarrow> error + (files \<times> rng)" where
  "splice_mutate conf dictionary seed seed_queue fs g =
     (if length seed_queue < 2 then havoc_mutate conf dictionary seed fs g
      else (case splice_write conf seed seed_queue fs g of
              Inl e \<Rightarrow> Inl e
            | Inr (fs', g') \<Rightarrow> havoc_mutate conf dictionary seed fs' g'))"

text \<open>
  A mutator's result on \<open>data\<close> is a buffer at least as long, not an exception.
\<close>

definition grows :: "bytes \<Rightarrow> error + (bytes \<times> rng) \<Rightarrow> bool" where
  "grows data result \<longleftrightarrow> (\<exists>data' g'. result = Inr (data', g') \<and> length data \<le> length data')"

subsection \<open>mutation.py: the operator bandit\<close>

text \<open>The operator names \<^verbatim>\<open>'havoc'\<close> and \<^verbatim>\<open>'splice'\<close>.\<close>

datatype operator = Havoc | Splice

text \<open>The counters of a \<^verbatim>\<open>MutationStrategy\<close>.\<close>

record mutation_strategy =
  havoc_rewards :: int
  splice_rewards :: int
  havoc_uses :: nat
  splice_uses :: nat
  havoc_crashes :: nat
  splice_crashes :: nat

definition new_mutation_strategy :: mutation_strategy where
  "new_mutation_strategy =
     \<lparr>havoc_rewards = 0, splice_rewards = 0, havoc_uses = 0, splice_uses = 0,
      havoc_crashes = 0, splice_crashes = 0\<rparr>"

text \<open>
  \<^verbatim>\<open>select_operator()\<close>: \<open>explore\<close> is the outcome of \<^verbatim>\<open>random.random() < self.epsilon\<close>
  and \<open>r\<close> the draw of \<^verbatim>\<open>random.choice(['havoc', 'splice'])\<close>.
\<close>

definition select_operator :: "mutation_strategy \<Rightarrow> bool \<Rightarrow> nat \<Rightarrow> operator" where
  "select_operator ms explore r =
     (if explore then [Havoc, Splice] ! (r mod 2)
      else
        (let havoc_score =
               (real_of_int (havoc_rewards ms) + real (havoc_crashes ms) * 10)
                 / real (py_max 1 (havoc_uses ms));
             splice_score =
               (real_of_int (splice_rewards ms) + real (splice_crashes ms) * 10)
                 / real (py_max 1 (splice_uses ms))
         in if havoc_score \<ge> splice_score then Havoc else Splice))"

text \<open>\<^verbatim>\<open>update_rewards(operator, new_coverage, crashed=False)\<close>.\<close>

definition update_rewards ::
  "mutation_strategy \<Rightarrow> operator \<Rightarrow> int \<Rightarrow> bool \<Rightarrow> mutation_strategy" where
  "update_rewards ms operator new_coverage crashed =
     (if operator = Havoc
      then ms\<lparr>havoc_uses := havoc_uses ms + 1,
              havoc_rewards := havoc_rewards ms + new_coverage,
              havoc_crashes := (if crashed then havoc_crashes ms + 1 else havoc_crashes ms)\<rparr>
      else ms\<lparr>splice_uses := splice_uses ms + 1,
              splice_rewards := splice_rewards ms + new_coverage,
              splice_crashes := (if crashed then splice_crashes ms + 1 else splice_crashes ms)\<rparr>)"

subsection \<open>feedback.py: coverage\<close>

definition MAP_SIZE :: nat where
  "MAP_SIZE = 2 ^ 16"

text \<open>
  \<^verbatim>\<open>check_coverage(trace_bits, global_coverage)\<close>; \<open>trace_bits\<close> is the content of the
  shared memory, of which \<open>MAP_SIZE\<close> bytes are read.
\<close>

definition check_coverage :: "bytes \<Rightarrow> nat set \<Rightarrow> bool \<times> nat set" where
  "check_coverage trace_bits global_coverage =
     (let raw_bitmap = take MAP_SIZE trace_bits;
          current_coverage = set (filter (\<lambda>idx. raw_bitmap ! idx \<noteq> 0) [0..<length raw_bitmap]);
          new_edges = current_coverage - global_coverage
      in (new_edges \<noteq> {}, current_coverage))"

subsection \<open>Paths and files\<close>

text \<open>
  POSIX \<^verbatim>\<open>os.path.join\<close> of two components, \<^verbatim>\<open>os.path.basename\<close>, and \<^verbatim>\<open>str\<close> of a
  non-negative integer, used in f-strings.
\<close>

definition path_join :: "string \<Rightarrow> string \<Rightarrow> string" where
  "path_join a b =
     (if b \<noteq> [] \<and> hd b = CHR ''/'' then b
      else if a = [] \<or> last a = CHR ''/'' then a @ b
      else a @ ''/'' @ b)"

definition basename :: "string \<Rightarrow> string" where
  "basename p = rev (takeWhile (\<lambda>c. c \<noteq> CHR ''/'') (rev p))"

fun str_nat :: "nat \<Rightarrow> string" where
  "str_nat n =
     (if n < 10 then [''0123456789'' ! n]
      else str_nat (n div 10) @ [''0123456789'' ! (n mod 10)])"

declare str_nat.simps [simp del]

text \<open>
  \<^verbatim>\<open>shutil.copyfile(src, dst)\<close>: a missing source raises FileNotFoundError, copying a file
  onto itself raises SameFileError. A file is identified by its path.
\<close>

definition copyfile :: "string \<Rightarrow> string \<Rightarrow> files \<Rightarrow> error + files" where
  "copyfile src dst fs =
     (case fs src of
        None \<Rightarrow> Inl FileNotFoundError
      | Some data \<Rightarrow> if src = dst then Inl SameFileError else Inr (fs(dst \<mapsto> data)))"

text \<open>
  The constructor \<^verbatim>\<open>Seed(path, seed_id, coverage, exec_time)\<close>;
  \<^verbatim>\<open>os.path.getsize\<close> raises when the file is missing.
\<close>

definition new_seed :: "files \<Rightarrow> string \<Rightarrow> nat \<Rightarrow> nat set \<Rightarrow> real \<Rightarrow> error + seed" where
  "new_seed fs p i cov t =
     (case fs p of
        None \<Rightarrow> Inl FileNotFoundError
      | Some data \<Rightarrow>
          Inr \<lparr>path = p, seed_id = i, coverage = cov, exec_time = t,
               file_size = length data, favored = False\<rparr>)"

subsection \<open>main.py: the state of \<^verbatim>\<open>run_fuzzing\<close>\<close>

text \<open>
  What one round of the loops takes from outside the program: the two draws of \<^verbatim>\<open>select_operator\<close>, the random stream of the mutation, the status
  and time \<^verbatim>\<open>run_target\<close> returns, the coverage map after the run, and the clock read
  by \<^verbatim>\<open>save_crash_input\<close>.
\<close>

record run_obs =
  explore :: bool
  op_draw :: nat
  mut_rng :: rng
  status_code :: int
  run_time :: real
  trace_bits :: bytes
  now :: nat

text \<open>
  The local variables of \<^verbatim>\<open>run_fuzzing\<close>, the mutation strategy, and the files. Three
  histories are kept beside them: the content of \<open>current_input\<close> at each call of
  \<^verbatim>\<open>run_target\<close>, the statuses \<^verbatim>\<open>check_crash\<close> was called on, and the path and status of
  each call of \<^verbatim>\<open>save_crash_input\<close>.
\<close>

record fuzz_state =
  seed_queue :: "seed list"
  global_coverage :: "nat set"
  edge_to_seeds :: "(nat \<times> nat list) list"
  total_exec_time :: real
  exec_count :: nat
  avg_exec_time :: real
  seeds_used_in_cycle :: "nat set option"
  cycle_seed_count :: "nat option"
  cycle_count :: nat
  strategy :: mutation_strategy
  files :: files
  run_target_inputs :: "bytes option list"
  check_crash_calls :: "int list"
  saved_crashes :: "(string \<times> int) list"

text \<open>
  \<^verbatim>\<open>if edge not in edge_to_seeds: edge_to_seeds[edge] = []\<close> followed by
  \<^verbatim>\<open>edge_to_seeds[edge].append(i)\<close>: a new key goes to the end of the dictionary.
\<close>

definition add_edge :: "nat \<Rightarrow> nat \<Rightarrow> (nat \<times> nat list) list \<Rightarrow> (nat \<times> nat list) list" where
  "add_edge i edge m =
     (case map_of m edge of
        None \<Rightarrow> AList.update edge [i] m
      | Some seed_ids \<Rightarrow> AList.update edge (seed_ids @ [i]) m)"

text \<open>
  The loop \<^verbatim>\<open>for edge in seed_coverage\<close>. The order in which Python walks a set only
  decides the order of the keys of the dictionary; the model walks it in ascending order.
\<close>

definition add_edges :: "nat \<Rightarrow> nat set \<Rightarrow> (nat \<times> nat list) list \<Rightarrow> (nat \<times> nat list) list" where
  "add_edges i seed_coverage m = fold (add_edge i) (sorted_list_of_set seed_coverage) m"

text \<open>
  Modelled from the spec: \<^verbatim>\<open>run_target\<close> of \<^verbatim>\<open>execution.py\<close>, which is not among the
  sources. It runs the target once on the file \<open>current_input\<close> and returns the wait
  status, 9 on a timeout, and the elapsed time. The model records what \<open>current_input\<close>
  holds at the call; the status and the time returned are those of the observation.
\<close>

definition run_target :: "config \<Rightarrow> fuzz_state \<Rightarrow> fuzz_state" where
  "run_target conf st =
     st\<lparr>run_target_inputs := run_target_inputs st @ [files st (current_input conf)]\<rparr>"

text \<open>
  \<^verbatim>\<open>save_crash_input(conf, seed_path, status_code)\<close>; \<open>timestamp\<close> is
  \<^verbatim>\<open>int(time.time())\<close>. It returns the files and the path of the crash file.
\<close>

definition save_crash_input ::
  "config \<Rightarrow> string \<Rightarrow> nat \<Rightarrow> files \<Rightarrow> error + (files \<times> string)" where
  "save_crash_input conf seed_path timestamp fs =
     (let crash_filename =
            (if seed_path \<noteq> []
             then ''crash_'' @ str_nat timestamp @ ''_'' @ basename seed_path
             else ''crash_'' @ str_nat timestamp);
          crash_path = path_join (crashes_folder conf) crash_filename
      in case copyfile (current_input conf) crash_path fs of
           Inl e \<Rightarrow> Inl e
         | Inr fs' \<Rightarrow> Inr (fs', crash_path))"

subsection \<open>main.py: the dry run\<close>

text \<open>
  One round of \<^verbatim>\<open>for i, seed_file in enumerate(seed_files)\<close>. A round that ends in
  \<^verbatim>\<open>continue\<close> returns the state it has reached.
\<close>

definition dry_run_one :: "config \<Rightarrow> nat \<Rightarrow> string \<Rightarrow> run_obs \<Rightarrow> fuzz_state \<Rightarrow> error + fuzz_state" where
  "dry_run_one conf i seed_file obs st =
     (let seed_path = path_join (queue_folder conf) seed_file
      in case copyfile seed_path (current_input conf) (files st) of
           Inl e \<Rightarrow> Inl e
         | Inr fs \<Rightarrow>
             (let st = run_target conf (st\<lparr>files := fs\<rparr>)
              in if status_code obs = 9 then Inr st
                 else
                   (let st = st\<lparr>check_crash_calls := check_crash_calls st @ [status_code obs]\<rparr>
                    in if check_crash (status_code obs) then Inr st
                       else
                         (let (new_edge_covered, seed_coverage) =
                                check_coverage (trace_bits obs) (global_coverage st);
                              st = st\<lparr>global_coverage := global_coverage st \<union> seed_coverage\<rparr>;
                              st = st\<lparr>edge_to_seeds := add_edges i seed_coverage (edge_to_seeds st)\<rparr>
                          in case new_seed (files st) seed_path i seed_coverage (run_time obs) of
                               Inl e \<Rightarrow> Inl e
                             | Inr s \<Rightarrow>
                                 Inr (st\<lparr>seed_queue := seed_queue st @ [s],
                                          total_exec_time := total_exec_time st + run_time obs,
                                          exec_count := exec_count st + 1\<rparr>)))))"

fun dry_run :: "config \<Rightarrow> nat \<Rightarrow> (string \<times> run_obs) list \<Rightarrow> fuzz_state \<Rightarrow> error + fuzz_state" where
  "dry_run conf i [] st = Inr st"
| "dry_run conf i ((seed_file, obs) # seed_files) st =
     (case dry_run_one conf i seed_file obs st of
        Inl e \<Rightarrow> Inl e
      | Inr st' \<Rightarrow> dry_run conf (Suc i) seed_files st')"

subsection \<open>main.py: the fuzzing loop\<close>

text \<open>
  One round of \<^verbatim>\<open>for _ in range(power_schedule)\<close>, for the selected seed, in four
  parts: the operator is selected, the branch on the operator mutates, the target runs,
  and the result is handled.
\<close>

definition apply_operator ::
  "config \<Rightarrow> bytes list \<Rightarrow> operator \<Rightarrow> seed \<Rightarrow> seed list \<Rightarrow> files \<Rightarrow> rng
     \<Rightarrow> error + (files \<times> rng)" where
  "apply_operator conf dictionary operator selected_seed queue fs g =
     (if operator = Havoc then havoc_mutate conf dictionary selected_seed fs g
      else splice_mutate conf dictionary selected_seed queue fs g)"

text \<open>
  The call of \<^verbatim>\<open>run_target\<close> in the loop and the three assignments after it.
\<close>

definition timed_run :: "config \<Rightarrow> run_obs \<Rightarrow> fuzz_state \<Rightarrow> fuzz_state" where
  "timed_run conf obs st =
     (let st = run_target conf st;
          st = st\<lparr>total_exec_time := total_exec_time st + run_time obs\<rparr>;
          st = st\<lparr>exec_count := exec_count st + 1\<rparr>
      in st\<lparr>avg_exec_time := total_exec_time st / real (exec_count st)\<rparr>)"

text \<open>The rest of the round, from \<^verbatim>\<open>if status_code == 9\<close> on.\<close>

definition handle_result ::
  "config \<Rightarrow> seed \<Rightarrow> operator \<Rightarrow> run_obs \<Rightarrow> fuzz_state \<Rightarrow> error + fuzz_state" where
  "handle_result conf selected_seed operator obs st =
     (if status_code obs = 9 then Inr st
      else
        (let st = st\<lparr>check_crash_calls := check_crash_calls st @ [status_code obs]\<rparr>
         in if check_crash (status_code obs)
            then
              (case save_crash_input conf (path selected_seed) (now obs) (files st) of
                 Inl e \<Rightarrow> Inl e
               | Inr (fs, crash_path) \<Rightarrow>
                   Inr (st\<lparr>files := fs,
                            saved_crashes := saved_crashes st @ [(crash_path, status_code obs)],
                            strategy := update_rewards (strategy st) operator 0 True\<rparr>))
            else
              (let (new_edge_covered, seed_coverage) =
                     check_coverage (trace_bits obs) (global_coverage st)
               in if new_edge_covered
                  then
                    (let st = st\<lparr>global_coverage := global_coverage st \<union> seed_coverage\<rparr>;
                         seed_id = length (seed_queue st);
                         st = st\<lparr>edge_to_seeds :=
                                    add_edges seed_id seed_coverage (edge_to_seeds st)\<rparr>;
                         new_seed_path =
                           path_join (queue_folder conf) (''id_'' @ str_nat seed_id)
                     in case copyfile (current_input conf) new_seed_path (files st) of
                          Inl e \<Rightarrow> Inl e
                        | Inr fs \<Rightarrow>
                            (case new_seed fs new_seed_path seed_id seed_coverage
                                    (run_time obs) of
                               Inl e \<Rightarrow> Inl e
                             | Inr s \<Rightarrow>
                                 Inr (st\<lparr>files := fs,
                                          seed_queue := seed_queue st @ [s],
                                          strategy :=
                                            update_rewards (strategy st) operator
                                              (int (card (seed_coverage - global_coverage st)))
                                              False\<rparr>)))
                  else Inr st)))"

definition fuzz_one ::
  "config \<Rightarrow> bytes list \<Rightarrow> seed \<Rightarrow> run_obs \<Rightarrow> fuzz_state \<Rightarrow> error + fuzz_state" where
  "fuzz_one conf dictionary selected_seed obs st =
     (let operator = select_operator (strategy st) (explore obs) (op_draw obs)
      in case apply_operator conf dictionary operator selected_seed (seed_queue st) (files st)
                (mut_rng obs) of
           Inl e \<Rightarrow> Inl e
         | Inr (fs, g) \<Rightarrow>
             handle_result conf selected_seed operator obs
               (timed_run conf obs (st\<lparr>files := fs\<rparr>)))"

text \<open>The rounds of the loop, one observation each.\<close>

fun fuzz_many ::
  "config \<Rightarrow> bytes list \<Rightarrow> seed \<Rightarrow> run_obs list \<Rightarrow> fuzz_state \<Rightarrow> error + fuzz_state" where
  "fuzz_many conf dictionary selected_seed [] st = Inr st"
| "fuzz_many conf dictionary selected_seed (obs # rest) st =
     (case fuzz_one conf dictionary selected_seed obs st of
        Inl e \<Rightarrow> Inl e
      | Inr st' \<Rightarrow> fuzz_many conf dictionary selected_seed rest st')"



text \<open>
  One round of \<^verbatim>\<open>while True\<close>: \<open>coin\<close> and \<open>pick\<close> are the draws of
  \<^verbatim>\<open>select_next_seed\<close>, and \<open>obs k\<close> is what the \<open>k\<close>-th run of the seed's budget
  observes. The result says whether the loop was left by \<^verbatim>\<open>break\<close>.
\<close>

definition fuzz_cycle ::
  "config \<Rightarrow> bytes list \<Rightarrow> bool \<Rightarrow> nat \<Rightarrow> (nat \<Rightarrow> run_obs) \<Rightarrow> fuzz_state
     \<Rightarrow> error + (bool \<times> fuzz_state)" where
  "fuzz_cycle conf dictionary coin pick obs st =
     (case select_next_seed (seed_queue st) (seeds_used_in_cycle st) (cycle_seed_count st)
             coin pick of
        Inl e \<Rightarrow> Inl e
      | Inr (selected_seed, used, count, new_cycle) \<Rightarrow>
          (let st = st\<lparr>seeds_used_in_cycle := used, cycle_seed_count := count\<rparr>
           in case (if new_cycle
                    then (case update_favored_seeds (seed_queue st) (edge_to_seeds st) of
                            Inl e \<Rightarrow> Inl e
                          | Inr q \<Rightarrow> Inr (st\<lparr>cycle_count := cycle_count st + 1,
                                                seed_queue := q\<rparr>))
                    else Inr st) of
                Inl e \<Rightarrow> Inl e
              | Inr st \<Rightarrow>
                  (case selected_seed of
                     None \<Rightarrow> Inr (True, st)
                   | Some seed \<Rightarrow>
                       (let power_schedule = get_power_schedule seed (avg_exec_time st)
                        in case fuzz_many conf dictionary seed
                                  (map obs [0..<nat power_schedule]) st of
                             Inl e \<Rightarrow> Inl e
                           | Inr st \<Rightarrow> Inr (False, st)))))"

text \<open>
  The loop \<^verbatim>\<open>while True\<close>, for as many rounds as there are observations; the result says
  whether it has stopped.
\<close>

fun fuzz_loop ::
  "config \<Rightarrow> bytes list \<Rightarrow> (bool \<times> nat \<times> (nat \<Rightarrow> run_obs)) list \<Rightarrow> fuzz_state
     \<Rightarrow> error + (bool \<times> fuzz_state)" where
  "fuzz_loop conf dictionary [] st = Inr (False, st)"
| "fuzz_loop conf dictionary ((coin, pick, obs) # rounds) st =
     (case fuzz_cycle conf dictionary coin pick obs st of
        Inl e \<Rightarrow> Inl e
      | Inr (stopped, st') \<Rightarrow>
          if stopped then Inr (True, st') else fuzz_loop conf dictionary rounds st')"

text \<open>
  \<^verbatim>\<open>run_fuzzing\<close>, after the handshake with the fork server and
  \<^verbatim>\<open>shutil.copytree\<close>: \<open>fs\<close> holds the files, the queue folder among them, and
  \<open>seed_files\<close> is what \<^verbatim>\<open>os.listdir\<close> returns, each name with what its dry run observes.
\<close>

definition initial_state :: "files \<Rightarrow> fuzz_state" where
  "initial_state fs =
     \<lparr>seed_queue = [], global_coverage = {}, edge_to_seeds = [],
      total_exec_time = 0, exec_count = 0, avg_exec_time = 0,
      seeds_used_in_cycle = Some {}, cycle_seed_count = Some 0, cycle_count = 0,
      strategy = new_mutation_strategy, files = fs,
      run_target_inputs = [], check_crash_calls = [], saved_crashes = []\<rparr>"

definition run_fuzzing ::
  "config \<Rightarrow> bytes list \<Rightarrow> (string \<times> run_obs) list
     \<Rightarrow> (bool \<times> nat \<times> (nat \<Rightarrow> run_obs)) list \<Rightarrow> files \<Rightarrow> error + (bool \<times> fuzz_state)" where
  "run_fuzzing conf dictionary seed_files rounds fs =
     (case dry_run conf 0 seed_files (initial_state fs) of
        Inl e \<Rightarrow> Inl e
      | Inr st \<Rightarrow>
          (let st = st\<lparr>avg_exec_time :=
                         (if exec_count st > 0
                          then total_exec_time st / real (exec_count st) else 0.1)\<rparr>
           in case update_favored_seeds (seed_queue st) (edge_to_seeds st) of
                Inl e \<Rightarrow> Inl e
              | Inr q \<Rightarrow>
                  fuzz_loop conf dictionary rounds
                    (st\<lparr>seed_queue := q, seeds_used_in_cycle := Some {},
                        cycle_seed_count := Some (length q), cycle_count := 0,
                        strategy := new_mutation_strategy\<rparr>)))"

text \<open>
  No timed-out run is on record as a crash: the sentinel 9 is neither among the statuses
  \<^verbatim>\<open>check_crash\<close> was called on nor among those a crash file was saved for.
\<close>

definition timeouts_unrecorded :: "fuzz_state \<Rightarrow> bool" where
  "timeouts_unrecorded st \<longleftrightarrow>
     9 \<notin> set (check_crash_calls st) \<and> 9 \<notin> snd ` set (saved_crashes st)"

subsection \<open>Example data\<close>

text \<open>
  A configuration, an observation with a given status and coverage map, and the state of
  the loop with one seed that covers edge 0, used where a theorem is applied to a concrete run.
\<close>

abbreviation example_conf :: config where
  "example_conf \<equiv> \<lparr>queue_folder = ''q'', crashes_folder = ''c'', current_input = ''cur''\<rparr>"

abbreviation example_obs :: "int \<Rightarrow> bytes \<Rightarrow> run_obs" where
  "example_obs status bitmap \<equiv>
     \<lparr>explore = False, op_draw = 0, mut_rng = (\<lambda>n. 0), status_code = status, run_time = 1,
      trace_bits = bitmap, now = 5\<rparr>"

abbreviation example_seed :: "nat \<Rightarrow> seed" where
  "example_seed n \<equiv>
     \<lparr>path = ''q/s0'', seed_id = 0, coverage = {0}, exec_time = 1, file_size = n,
      favored = True\<rparr>"

abbreviation example_files :: "bytes \<Rightarrow> bytes \<Rightarrow> files" where
  "example_files data input \<equiv> [''q/s0'' \<mapsto> data, ''cur'' \<mapsto> input]"

abbreviation example_state :: "nat \<Rightarrow> bytes \<Rightarrow> bytes \<Rightarrow> fuzz_state" where
  "example_state n data input \<equiv>
     (initial_state (example_files data input))
       \<lparr>seed_queue := [example_seed n], global_coverage := {0}, edge_to_seeds := [(0, [0])]\<rparr>"

text \<open>
  The same with a second seed in the queue, and an observation whose two draws make
  \<^verbatim>\<open>select_operator\<close> explore and return \<^verbatim>\<open>'splice'\<close>.
\<close>

abbreviation example_partner :: seed where
  "example_partner \<equiv>
     \<lparr>path = ''q/s1'', seed_id = 1, coverage = {0}, exec_time = 1, file_size = 4,
      favored = False\<rparr>"



section \<open>Theorems\<close>

subsection \<open>The crash classifier\<close>

text \<open>
  C8. For every status code, \<open>check_crash\<close> returns True iff the low seven bits of the
  status are one of the signals 1, 2, 3, 4, 6, 7, 8, 9, 11, 13, 14, 15, 24, 25, 31, or the
  core-dump bit 0x80 is set; status 139 (0x8B) is a crash and status 0 is not.
\<close>

theorem check_crash_iff:
  "(check_crash status \<longleftrightarrow>
      (status AND 0x7F) \<in> {1, 2, 3, 4, 6, 7, 8, 9, 11, 13, 14, 15, 24, 25, 31}
      \<or> (status AND 0x80) \<noteq> 0)
   \<and> check_crash 139 \<and> \<not> check_crash 0"
proof -
  have general: "check_crash s \<longleftrightarrow>
      (s AND 0x7F) \<in> {1, 2, 3, 4, 6, 7, 8, 9, 11, 13, 14, 15, 24, 25, 31}
      \<or> (s AND 0x80) \<noteq> 0" for s :: int
    by (simp add: check_crash_def crash_signals_def Let_def)
  have "(139 :: int) AND 0x7F = 11"
    by simp
  then have "check_crash 139"
    by (simp add: general)
  moreover have "\<not> check_crash 0"
    by (simp add: general)
  ultimately show ?thesis
    using general [of status] by blast
qed

theorem check_crash_iff_witness:
  "check_crash 11 \<and> \<not> check_crash 5 \<and> check_crash 128"
proof -
  have a: "(11 :: int) AND 0x7F = 11" "(11 :: int) AND 0x80 = 0"
    by simp_all
  have b: "(5 :: int) AND 0x7F = 5" "(5 :: int) AND 0x80 = 0"
    by simp_all
  have c: "(128 :: int) AND 0x7F = 0" "(128 :: int) AND 0x80 = 128"
    by simp_all
  show ?thesis
    using check_crash_iff [of 11] check_crash_iff [of 5] check_crash_iff [of 128]
    by (simp add: a b c)
qed

subsection \<open>The power schedule\<close>

text \<open>
  C9. For every seed and every average execution time, \<open>get_power_schedule\<close> returns an
  integer between 1 and 1000.
\<close>

theorem get_power_schedule_bounds:
  "1 \<le> get_power_schedule s avg \<and> get_power_schedule s avg \<le> 1000"
  by (simp add: get_power_schedule_def Let_def py_min_def py_max_def)


subsection \<open>Favored recomputation\<close>

text \<open>The head of a stable sort is the first element of the list with the least key.\<close>

lemma sort_key_head:
  assumes "xs \<noteq> []"
  shows "\<exists>h rest pre post. sort_key f xs = h # rest \<and> xs = pre @ h # post
            \<and> (\<forall>y\<in>set pre. f h < f y) \<and> (\<forall>y\<in>set post. f h \<le> f y)"
  using assms
proof (induction xs)
  case Nil
  then show ?case by simp
next
  case (Cons x xs)
  show ?case
  proof (cases "xs = []")
    case True
    have "sort_key f (x # xs) = x # []" "x # xs = [] @ x # []"
      using True by simp_all
    then show ?thesis
      by (metis empty_iff list.set(1))
  next
    case False
    with Cons.IH obtain h rest pre post where
      h: "sort_key f xs = h # rest" "xs = pre @ h # post"
         "\<forall>y\<in>set pre. f h < f y" "\<forall>y\<in>set post. f h \<le> f y"
      by blast
    show ?thesis
    proof (cases "f x \<le> f h")
      case True
      have "sort_key f (x # xs) = x # h # rest"
        using h(1) True by simp
      moreover have "x # xs = [] @ x # xs"
        by simp
      moreover have "\<forall>y\<in>set xs. f x \<le> f y"
        using h(2-4) True by auto
      ultimately show ?thesis
        by (metis empty_iff list.set(1))
    next
      case False
      have "sort_key f (x # xs) = h # insort_key f x rest"
        using h(1) False by simp
      moreover have "x # xs = (x # pre) @ h # post"
        using h(2) by simp
      moreover have "\<forall>y\<in>set (x # pre). f h < f y"
        using h(3) False by auto
      ultimately show ?thesis
        using h(4) by blast
    qed
  qed
qed

lemma ids_are_positions_nth:
  "ids_are_positions q \<Longrightarrow> i < length q \<Longrightarrow> seed_id (q ! i) = i"
  by (simp add: ids_are_positions_def list_all_iff)

lemma minimal_for_unique:
  assumes "ids_are_positions q" "\<forall>i\<in>set seed_ids. i < length q"
    and "minimal_for q seed_ids i" "minimal_for q seed_ids j"
  shows "i = j"
proof -
  have i: "i \<in> set seed_ids" and j: "j \<in> set seed_ids"
    using assms(3,4) by (simp_all add: minimal_for_def)
  then have "seed_id (q ! i) = i" "seed_id (q ! j) = j"
    using assms(1,2) by (simp_all add: ids_are_positions_nth)
  moreover have "get_valuation (q ! i) < get_valuation (q ! j)
      \<or> (get_valuation (q ! i) = get_valuation (q ! j) \<and> seed_id (q ! i) \<le> seed_id (q ! j))"
    using assms(3) j by (simp add: minimal_for_def list_all_iff)
  moreover have "get_valuation (q ! j) < get_valuation (q ! i)
      \<or> (get_valuation (q ! j) = get_valuation (q ! i) \<and> seed_id (q ! j) \<le> seed_id (q ! i))"
    using assms(4) i by (simp add: minimal_for_def list_all_iff)
  ultimately show ?thesis by linarith
qed

lemma mark_edge_result:
  assumes pos: "ids_are_positions q"
    and ne: "seed_ids \<noteq> []" and asc: "sorted seed_ids"
    and valid: "\<forall>i\<in>set seed_ids. i < length q"
  shows "\<exists>h. mark_edge q seed_ids = Inr (q[h := mark_favored (q ! h)])
           \<and> minimal_for q seed_ids h"
proof -
  let ?f = "\<lambda>i. get_valuation (q ! i)"
  from sort_key_head [OF ne, of ?f] obtain h rest pre post where
    h: "sort_key ?f seed_ids = h # rest" "seed_ids = pre @ h # post"
       "\<forall>y\<in>set pre. ?f h < ?f y" "\<forall>y\<in>set post. ?f h \<le> ?f y"
    by blast
  have later: "\<forall>y\<in>set post. h \<le> y"
    using asc h(2) by (simp add: sorted_append)
  have hin: "h \<in> set seed_ids"
    using h(2) by simp
  have "?f h < ?f j \<or> (?f h = ?f j \<and> seed_id (q ! h) \<le> seed_id (q ! j))"
    if "j \<in> set seed_ids" for j
  proof -
    have ids: "seed_id (q ! h) = h" "seed_id (q ! j) = j"
      using pos valid hin that by (simp_all add: ids_are_positions_nth)
    from that h(2) consider "j \<in> set pre" | "j = h" | "j \<in> set post"
      by auto
    then show ?thesis
    proof cases
      case 1
      then show ?thesis using h(3) by simp
    next
      case 2
      then show ?thesis by simp
    next
      case 3
      then have "?f h \<le> ?f j" "h \<le> j"
        using h(4) later by simp_all
      then show ?thesis using ids by auto
    qed
  qed
  then have "minimal_for q seed_ids h"
    using hin by (simp add: minimal_for_def list_all_iff)
  moreover have "mark_edge q seed_ids = Inr (q[h := mark_favored (q ! h)])"
    using valid h(1) by (auto simp: mark_edge_def)
  ultimately show ?thesis by blast
qed

lemma nth_marked:
  "q[h := mark_favored (q ! h)] ! j = (if j = h \<and> h < length q then mark_favored (q ! j) else q ! j)"
proof (cases "h < length q")
  case True
  then show ?thesis by (simp add: nth_list_update)
next
  case False
  then have "q[h := mark_favored (q ! h)] = q"
    by (simp add: list_update_beyond)
  then show ?thesis using False by simp
qed

lemma minimal_for_marked:
  "minimal_for (q[h := mark_favored (q ! h)]) seed_ids i = minimal_for q seed_ids i"
proof -
  have v: "get_valuation (q[h := mark_favored (q ! h)] ! j) = get_valuation (q ! j)" for j
    unfolding nth_marked by (simp add: mark_favored_def get_valuation_def)
  have s: "seed_id (q[h := mark_favored (q ! h)] ! j) = seed_id (q ! j)" for j
    unfolding nth_marked by (simp add: mark_favored_def)
  show ?thesis
    unfolding minimal_for_def v s ..
qed

lemma ids_are_positions_marked:
  "ids_are_positions q \<Longrightarrow> ids_are_positions (q[h := mark_favored (q ! h)])"
proof -
  assume a: "ids_are_positions q"
  have "seed_id (q[h := mark_favored (q ! h)] ! i) = i" if "i < length q" for i
    using ids_are_positions_nth [OF a that] that
    by (cases "i = h") (simp_all add: mark_favored_def)
  then show ?thesis
    by (simp add: ids_are_positions_def list_all_iff)
qed

lemma index_ok_Cons:
  "index_ok q ((edge, seed_ids) # items) \<longleftrightarrow>
     seed_ids \<noteq> [] \<and> sorted seed_ids \<and> (\<forall>i\<in>set seed_ids. i < length q) \<and> index_ok q items"
  by (simp add: index_ok_def list_all_iff)

lemma index_ok_valid:
  "index_ok q items \<Longrightarrow> (edge, seed_ids) \<in> set items \<Longrightarrow>
     seed_ids \<noteq> [] \<and> sorted seed_ids \<and> (\<forall>i\<in>set seed_ids. i < length q)"
  by (auto simp: index_ok_def list_all_iff)

lemma mark_edges_result:
  assumes "ids_are_positions q" "index_ok q items"
  shows "\<exists>q'. mark_edges q items = Inr q' \<and> length q' = length q \<and>
           (\<forall>i<length q. q' ! i =
              (if list_ex (\<lambda>(edge, seed_ids). minimal_for q seed_ids i) items
               then mark_favored (q ! i) else q ! i))"
  using assms
proof (induction items arbitrary: q)
  case Nil
  then show ?case by simp
next
  case (Cons item items)
  obtain edge seed_ids where item: "item = (edge, seed_ids)"
    by (cases item)
  from Cons.prems item have ok: "seed_ids \<noteq> []" "sorted seed_ids"
      "\<forall>i\<in>set seed_ids. i < length q" "index_ok q items"
    by (simp_all add: index_ok_Cons)
  from mark_edge_result [OF Cons.prems(1) ok(1-3)] obtain h where
    h: "mark_edge q seed_ids = Inr (q[h := mark_favored (q ! h)])" "minimal_for q seed_ids h"
    by blast
  let ?q1 = "q[h := mark_favored (q ! h)]"
  have "ids_are_positions ?q1"
    using Cons.prems(1) by (rule ids_are_positions_marked)
  moreover have "index_ok ?q1 items"
    using ok(4) by (simp add: index_ok_def)
  ultimately have "\<exists>q'. mark_edges ?q1 items = Inr q' \<and> length q' = length ?q1 \<and>
           (\<forall>i<length ?q1. q' ! i =
              (if list_ex (\<lambda>(edge, seed_ids). minimal_for ?q1 seed_ids i) items
               then mark_favored (?q1 ! i) else ?q1 ! i))"
    by (rule Cons.IH)
  then obtain q' where
    q': "mark_edges ?q1 items = Inr q'" "length q' = length q"
        "\<forall>i<length q. q' ! i =
              (if list_ex (\<lambda>(edge, seed_ids). minimal_for q seed_ids i) items
               then mark_favored (?q1 ! i) else ?q1 ! i)"
    unfolding minimal_for_marked length_list_update by blast
  have "q' ! i = (if list_ex (\<lambda>(edge, seed_ids). minimal_for q seed_ids i) (item # items)
               then mark_favored (q ! i) else q ! i)" if i: "i < length q" for i
  proof (cases "i = h")
    case True
    then show ?thesis
      using q'(3) i h(2) item by (simp add: mark_favored_def)
  next
    case False
    then have "\<not> minimal_for q seed_ids i"
      using minimal_for_unique [OF Cons.prems(1) ok(3) _ h(2)] by blast
    then show ?thesis
      using q'(3) i False item by simp
  qed
  then show ?case
    using h(1) q'(1,2) item by simp
qed

lemma update_favored_seeds_result:
  assumes "ids_are_positions q" "index_ok q items"
  shows "\<exists>q'. update_favored_seeds q items = Inr q' \<and> length q' = length q \<and>
           (\<forall>i<length q. q' ! i =
              (q ! i)\<lparr>favored := list_ex (\<lambda>(edge, seed_ids). minimal_for q seed_ids i) items\<rparr>)"
proof -
  let ?q0 = "map unmark_favored q"
  have m: "minimal_for ?q0 seed_ids i = minimal_for q seed_ids i"
    if "\<forall>i\<in>set seed_ids. i < length q" for seed_ids i
    using that by (auto simp: minimal_for_def list_all_iff unmark_favored_def get_valuation_def)
  have "ids_are_positions ?q0" "index_ok ?q0 items"
    using assms by (simp_all add: ids_are_positions_def list_all_iff unmark_favored_def index_ok_def)
  from mark_edges_result [OF this] obtain q' where
    q': "mark_edges ?q0 items = Inr q'" "length q' = length q"
        "\<forall>i<length q. q' ! i =
              (if list_ex (\<lambda>(edge, seed_ids). minimal_for ?q0 seed_ids i) items
               then mark_favored (?q0 ! i) else ?q0 ! i)"
    by auto
  have same: "list_ex (\<lambda>(edge, seed_ids). minimal_for ?q0 seed_ids i) items
      = list_ex (\<lambda>(edge, seed_ids). minimal_for q seed_ids i) items" for i
  proof -
    have "minimal_for ?q0 seed_ids i = minimal_for q seed_ids i"
      if "(edge, seed_ids) \<in> set items" for edge seed_ids
      using index_ok_valid [OF assms(2) that] m by blast
    then show ?thesis
      unfolding list_ex_iff by blast
  qed
  have "q' ! i = (q ! i)\<lparr>favored := list_ex (\<lambda>(edge, seed_ids). minimal_for q seed_ids i) items\<rparr>"
    if "i < length q" for i
    using q'(3) that by (simp add: same mark_favored_def unmark_favored_def)
  then show ?thesis
    using q'(1,2) by (simp add: update_favored_seeds_def)
qed


text \<open>
  C3. The claim as written (after a pass, exactly one of the seeds covering an edge is
  favored) fails: the flag belongs to the seed, not to the edge. With seed 0 of valuation
  10 and seed 1 of valuation 20, both covering edge 7, seed 0 alone covering edge 1 and
  seed 1 alone covering edge 3, the pass leaves both seeds favored, so two of the seeds
  covering edge 7 are favored.
\<close>

theorem favored_pass_marks_two_on_one_edge:
  "update_favored_seeds
     [\<lparr>path = ''a'', seed_id = 0, coverage = {1, 7}, exec_time = 2, file_size = 5, favored = False\<rparr>,
      \<lparr>path = ''b'', seed_id = 1, coverage = {3, 7}, exec_time = 4, file_size = 5, favored = False\<rparr>]
     [(7, [0, 1]), (1, [0]), (3, [1])]
   = Inr
     [\<lparr>path = ''a'', seed_id = 0, coverage = {1, 7}, exec_time = 2, file_size = 5, favored = True\<rparr>,
      \<lparr>path = ''b'', seed_id = 1, coverage = {3, 7}, exec_time = 4, file_size = 5, favored = True\<rparr>]"
  by (simp add: update_favored_seeds_def mark_edge_def unmark_favored_def mark_favored_def
      get_valuation_def)

text \<open>
  C3, amended. When each seed's id is its queue position and every seed list of the index
  is non-empty, ascending and names seeds of the queue, the pass completes and, for every
  edge of the index, the one covering seed with minimal (valuation, id) is favored
  afterwards; other seeds covering the edge may be favored as well.
\<close>

theorem favored_minimal_per_edge:
  assumes "ids_are_positions queue" "index_ok queue index"
  shows "\<exists>q'. update_favored_seeds queue index = Inr q' \<and>
           list_all (\<lambda>(edge, seed_ids).
              \<exists>i. minimal_for queue seed_ids i \<and> favored (q' ! i)
                 \<and> (\<forall>j. minimal_for queue seed_ids j \<longrightarrow> j = i)) index"
proof -
  from update_favored_seeds_result [OF assms] obtain q' where
    q': "update_favored_seeds queue index = Inr q'"
        "\<forall>i<length queue. q' ! i = (queue ! i)
           \<lparr>favored := list_ex (\<lambda>(edge, seed_ids). minimal_for queue seed_ids i) index\<rparr>"
    by blast
  have "\<exists>i. minimal_for queue seed_ids i \<and> favored (q' ! i)
                 \<and> (\<forall>j. minimal_for queue seed_ids j \<longrightarrow> j = i)"
    if item: "(edge, seed_ids) \<in> set index" for edge seed_ids
  proof -
    from index_ok_valid [OF assms(2) item] have ok: "seed_ids \<noteq> []" "sorted seed_ids"
        "\<forall>i\<in>set seed_ids. i < length queue"
      by simp_all
    from mark_edge_result [OF assms(1) ok] obtain i where i: "minimal_for queue seed_ids i"
      by blast
    then have "i < length queue"
      using ok(3) by (simp add: minimal_for_def)
    then have "favored (q' ! i)"
      using q'(2) i item by (auto simp: list_ex_iff)
    moreover have "\<forall>j. minimal_for queue seed_ids j \<longrightarrow> j = i"
      using minimal_for_unique [OF assms(1) ok(3) _ i] by blast
    ultimately show ?thesis
      using i by blast
  qed
  then show ?thesis
    using q'(1) by (auto simp: list_all_iff)
qed


theorem favored_minimal_per_edge_witness:
  "ids_are_positions
     [\<lparr>path = ''a'', seed_id = 0, coverage = {1, 7}, exec_time = 2, file_size = 5, favored = False\<rparr>,
      \<lparr>path = ''b'', seed_id = 1, coverage = {3, 7}, exec_time = 4, file_size = 5, favored = False\<rparr>]
   \<and> index_ok
     [\<lparr>path = ''a'', seed_id = 0, coverage = {1, 7}, exec_time = 2, file_size = 5, favored = False\<rparr>,
      \<lparr>path = ''b'', seed_id = 1, coverage = {3, 7}, exec_time = 4, file_size = 5, favored = False\<rparr>]
     [(7, [0, 1]), (1, [0]), (3, [1])]
   \<and> (\<exists>q'. update_favored_seeds
     [\<lparr>path = ''a'', seed_id = 0, coverage = {1, 7}, exec_time = 2, file_size = 5, favored = False\<rparr>,
      \<lparr>path = ''b'', seed_id = 1, coverage = {3, 7}, exec_time = 4, file_size = 5, favored = False\<rparr>]
     [(7, [0, 1]), (1, [0]), (3, [1])] = Inr q' \<and>
       list_all (\<lambda>(edge, seed_ids).
              \<exists>i. minimal_for
     [\<lparr>path = ''a'', seed_id = 0, coverage = {1, 7}, exec_time = 2, file_size = 5, favored = False\<rparr>,
      \<lparr>path = ''b'', seed_id = 1, coverage = {3, 7}, exec_time = 4, file_size = 5, favored = False\<rparr>] seed_ids i \<and> favored (q' ! i)
                 \<and> (\<forall>j. minimal_for
     [\<lparr>path = ''a'', seed_id = 0, coverage = {1, 7}, exec_time = 2, file_size = 5, favored = False\<rparr>,
      \<lparr>path = ''b'', seed_id = 1, coverage = {3, 7}, exec_time = 4, file_size = 5, favored = False\<rparr>] seed_ids j \<longrightarrow> j = i))
         ([(7, [0, 1]), (1, [0]), (3, [1])] :: (nat \<times> nat list) list))"
proof -
  have h1: "ids_are_positions
     [\<lparr>path = ''a'', seed_id = 0, coverage = {1, 7}, exec_time = 2, file_size = 5, favored = False\<rparr>,
      \<lparr>path = ''b'', seed_id = 1, coverage = {3, 7}, exec_time = 4, file_size = 5, favored = False\<rparr>]"
    by (simp add: ids_are_positions_def upt_rec)
  have h2: "index_ok
     [\<lparr>path = ''a'', seed_id = 0, coverage = {1, 7}, exec_time = 2, file_size = 5, favored = False\<rparr>,
      \<lparr>path = ''b'', seed_id = 1, coverage = {3, 7}, exec_time = 4, file_size = 5, favored = False\<rparr>]
     [(7, [0, 1]), (1, [0]), (3, [1])]"
    by (simp add: index_ok_def)
  show ?thesis
    by (rule conjI [OF h1 conjI [OF h2 favored_minimal_per_edge [OF h1 h2]]])
qed

text \<open>
  C5. The claim as written fails on two inputs that satisfy its conditions. The sort is
  stable, so a tie in valuation goes to the seed listed first, which is the lowest id
  only when the list is ascending: with two seeds of equal valuation and the list [1, 0]
  the pass marks seed 1. And an edge with an empty seed list is not passed over: the pass
  raises IndexError at \<^verbatim>\<open>seeds[0]\<close>.
\<close>

theorem favored_pass_tie_and_empty_list:
  "update_favored_seeds
     [\<lparr>path = ''c'', seed_id = 0, coverage = {7}, exec_time = 2, file_size = 5, favored = False\<rparr>,
      \<lparr>path = ''d'', seed_id = 1, coverage = {7}, exec_time = 2, file_size = 5, favored = False\<rparr>]
     [(7, [1, 0])]
   = Inr
     [\<lparr>path = ''c'', seed_id = 0, coverage = {7}, exec_time = 2, file_size = 5, favored = False\<rparr>,
      \<lparr>path = ''d'', seed_id = 1, coverage = {7}, exec_time = 2, file_size = 5, favored = True\<rparr>]
   \<and> update_favored_seeds
     [\<lparr>path = ''c'', seed_id = 0, coverage = {7}, exec_time = 2, file_size = 5, favored = False\<rparr>]
     [(7, [])] = Inl IndexError"
  by (simp add: update_favored_seeds_def mark_edge_def unmark_favored_def mark_favored_def
      get_valuation_def)

text \<open>
  C5, amended. For every seed queue in which each seed's id is its queue position and
  every index whose seed lists are non-empty, ascending and name seeds of the queue, the
  pass returns the queue with nothing changed but the flags: a seed is favored afterwards
  exactly when it has the smallest (valuation, id) among the seeds of some edge's list.
\<close>

theorem update_favored_seeds_marks_minimal:
  assumes "ids_are_positions queue" "index_ok queue index"
  shows "update_favored_seeds queue index =
     Inr (map (\<lambda>s. s\<lparr>favored :=
                 list_ex (\<lambda>(edge, seed_ids). minimal_for queue seed_ids (seed_id s)) index\<rparr>)
            queue)"
proof -
  from update_favored_seeds_result [OF assms] obtain q' where
    q': "update_favored_seeds queue index = Inr q'" "length q' = length queue"
        "\<forall>i<length queue. q' ! i = (queue ! i)
           \<lparr>favored := list_ex (\<lambda>(edge, seed_ids). minimal_for queue seed_ids i) index\<rparr>"
    by blast
  have "q' = map (\<lambda>s. s\<lparr>favored :=
                 list_ex (\<lambda>(edge, seed_ids). minimal_for queue seed_ids (seed_id s)) index\<rparr>)
            queue"
  proof (rule nth_equalityI)
    show "length q' = length (map (\<lambda>s. s\<lparr>favored :=
                 list_ex (\<lambda>(edge, seed_ids). minimal_for queue seed_ids (seed_id s)) index\<rparr>)
            queue)"
      using q'(2) by simp
  next
    fix i assume "i < length q'"
    then have i: "i < length queue"
      using q'(2) by simp
    then show "q' ! i = map (\<lambda>s. s\<lparr>favored :=
                 list_ex (\<lambda>(edge, seed_ids). minimal_for queue seed_ids (seed_id s)) index\<rparr>)
            queue ! i"
      using q'(3) ids_are_positions_nth [OF assms(1) i] by simp
  qed
  then show ?thesis
    using q'(1) by simp
qed

theorem update_favored_seeds_marks_minimal_witness:
  "update_favored_seeds
     [\<lparr>path = ''a'', seed_id = 0, coverage = {1, 7}, exec_time = 2, file_size = 5, favored = True\<rparr>,
      \<lparr>path = ''b'', seed_id = 1, coverage = {3, 7}, exec_time = 4, file_size = 5, favored = False\<rparr>]
     [(7, [0, 1]), (1, [0])]
   = Inr
     [\<lparr>path = ''a'', seed_id = 0, coverage = {1, 7}, exec_time = 2, file_size = 5, favored = True\<rparr>,
      \<lparr>path = ''b'', seed_id = 1, coverage = {3, 7}, exec_time = 4, file_size = 5, favored = False\<rparr>]"
proof -
  have h1: "ids_are_positions
     [\<lparr>path = ''a'', seed_id = 0, coverage = {1, 7}, exec_time = 2, file_size = 5, favored = True\<rparr>,
      \<lparr>path = ''b'', seed_id = 1, coverage = {3, 7}, exec_time = 4, file_size = 5, favored = False\<rparr>]"
    by (simp add: ids_are_positions_def upt_rec)
  have h2: "index_ok
     [\<lparr>path = ''a'', seed_id = 0, coverage = {1, 7}, exec_time = 2, file_size = 5, favored = True\<rparr>,
      \<lparr>path = ''b'', seed_id = 1, coverage = {3, 7}, exec_time = 4, file_size = 5, favored = False\<rparr>]
     [(7, [0, 1]), (1, [0])]"
    by (simp add: index_ok_def)
  show ?thesis
    using update_favored_seeds_marks_minimal [OF h1 h2]
    by (simp add: minimal_for_def get_valuation_def)
qed


subsection \<open>Seed selection\<close>

lemma random_choice_mem:
  "random_choice xs r = Inr x \<Longrightarrow> x \<in> set xs"
  by (auto simp: random_choice_def split: if_splits)

lemma select_next_seed_unfold:
  fixes queue :: "seed list" and used :: "nat set option" and count :: "nat option"
  assumes "queue \<noteq> []"
  defines "boundary \<equiv> card (used_of used) \<ge> count_of queue count"
  defines "cleared \<equiv> if boundary then {} else used_of used"
  defines "unused \<equiv> filter (\<lambda>s. seed_id s \<notin> cleared) queue"
  shows "select_next_seed queue used count coin r =
     (case (if filter favored unused \<noteq> [] \<and> coin
                  then random_choice (filter favored unused) r
                  else random_choice unused r) of
        Inl e \<Rightarrow> Inl e
      | Inr s \<Rightarrow> Inr (Some s, Some (insert (seed_id s) cleared),
            Some (if boundary then length queue else count_of queue count), boundary))"
  unfolding boundary_def cleared_def unused_def used_of_def count_of_def
  using assms(1) by (simp add: select_next_seed_def Let_def)

lemma select_next_seed_call_ok:
  assumes "queue \<noteq> []"
    and "select_next_seed queue used count coin r = Inr call"
  shows "call_ok queue used count call"
proof -
  define boundary where "boundary \<equiv> card (used_of used) \<ge> count_of queue count"
  define cleared where "cleared \<equiv> if boundary then {} else used_of used"
  define unused where "unused \<equiv> filter (\<lambda>s. seed_id s \<notin> cleared) queue"
  define pick where "pick \<equiv> if filter favored unused \<noteq> [] \<and> coin
                  then random_choice (filter favored unused) r
                  else random_choice unused r"
  have "select_next_seed queue used count coin r =
     (case pick of
        Inl e \<Rightarrow> Inl e
      | Inr s \<Rightarrow> Inr (Some s, Some (insert (seed_id s) cleared),
            Some (if boundary then length queue else count_of queue count), boundary))"
    unfolding pick_def unused_def cleared_def boundary_def
    by (rule select_next_seed_unfold [OF assms(1)])
  with assms(2) obtain s where s: "pick = Inr s"
    and call: "call = (Some s, Some (insert (seed_id s) cleared),
         Some (if boundary then length queue else count_of queue count), boundary)"
    by (cases pick) auto
  from s have "s \<in> set unused"
    unfolding pick_def by (auto dest: random_choice_mem split: if_splits)
  then have "s \<in> set queue" "seed_id s \<notin> cleared"
    by (simp_all add: unused_def)
  then show ?thesis
    unfolding call_ok_def Let_def call returned_new_cycle_def returned_used_def
      returned_count_def boundary_def [symmetric] cleared_def [symmetric]
    by simp
qed

lemma select_calls_Cons:
  assumes "select_calls queue used count ((coin, r) # draws) = Inr calls"
  shows "\<exists>call rest. calls = call # rest
           \<and> select_next_seed queue used count coin r = Inr call
           \<and> select_calls queue (returned_used call) (returned_count call) draws = Inr rest"
  using assms
  by (auto simp: returned_used_def returned_count_def split: sum.splits prod.splits)

lemma call_ok_no_boundary:
  assumes "call_ok queue used count call" "\<not> returned_new_cycle call"
  shows "\<exists>i. returned_id call = Some i \<and> i \<notin> used_of used
           \<and> used_of (returned_used call) = insert i (used_of used)"
  using assms
  by (auto simp: call_ok_def Let_def returned_id_def used_of_def split: if_splits)

lemma call_ok_returned:
  assumes "call_ok queue used count call"
  shows "\<exists>i. returned_id call = Some i \<and> i \<in> used_of (returned_used call)"
  using assms
  by (auto simp: call_ok_def Let_def returned_id_def used_of_def)

lemma select_calls_length:
  "select_calls queue used count draws = Inr calls \<Longrightarrow> length calls = length draws"
proof (induction draws arbitrary: used count calls)
  case Nil
  then show ?case by simp
next
  case (Cons d draws)
  obtain coin r where d: "d = (coin, r)"
    by (cases d)
  from select_calls_Cons [OF Cons.prems [unfolded d]] obtain call rest where
    "calls = call # rest"
    "select_calls queue (returned_used call) (returned_count call) draws = Inr rest"
    by blast
  then show ?case
    using Cons.IH by simp
qed

lemma select_calls_fresh:
  assumes "queue \<noteq> []"
    and "select_calls queue used count draws = Inr calls"
    and "j < length calls" "\<forall>k\<le>j. \<not> returned_new_cycle (calls ! k)"
    and "x \<in> used_of used"
  shows "returned_id (calls ! j) \<noteq> Some x"
  using assms(2-)
proof (induction draws arbitrary: used count calls j)
  case Nil
  then show ?case by simp
next
  case (Cons d draws)
  obtain coin r where d: "d = (coin, r)"
    by (cases d)
  from select_calls_Cons [OF Cons.prems(1) [unfolded d]] obtain call rest where
    c: "calls = call # rest" "select_next_seed queue used count coin r = Inr call"
       "select_calls queue (returned_used call) (returned_count call) draws = Inr rest"
    by blast
  have ok: "call_ok queue used count call"
    using assms(1) c(2) by (rule select_next_seed_call_ok)
  have "\<not> returned_new_cycle call"
    using Cons.prems(3) c(1) by auto
  with ok obtain i where i: "returned_id call = Some i" "i \<notin> used_of used"
      "used_of (returned_used call) = insert i (used_of used)"
    using call_ok_no_boundary by blast
  show ?case
  proof (cases j)
    case 0
    then show ?thesis
      using i(1,2) Cons.prems(4) c(1) by auto
  next
    case (Suc j')
    have "j' < length rest"
      using Cons.prems(2) c(1) Suc by simp
    moreover have "\<forall>k\<le>j'. \<not> returned_new_cycle (rest ! k)"
    proof (intro allI impI)
      fix k assume "k \<le> j'"
      then have "Suc k \<le> j" using Suc by simp
      then have "\<not> returned_new_cycle (calls ! Suc k)"
        using Cons.prems(3) by blast
      then show "\<not> returned_new_cycle (rest ! k)"
        using c(1) by simp
    qed
    moreover have "x \<in> used_of (returned_used call)"
      using i(3) Cons.prems(4) by simp
    ultimately have "returned_id (rest ! j') \<noteq> Some x"
      using Cons.IH [OF c(3)] by blast
    then show ?thesis
      using c(1) Suc by simp
  qed
qed

lemma select_calls_no_repeat:
  assumes "queue \<noteq> []"
    and "select_calls queue used count draws = Inr calls"
    and "i < j" "j < length calls" "returned_id (calls ! i) = returned_id (calls ! j)"
  shows "\<exists>k. i < k \<and> k \<le> j \<and> returned_new_cycle (calls ! k)"
  using assms(2-)
proof (induction draws arbitrary: used count calls i j)
  case Nil
  then show ?case by simp
next
  case (Cons d draws)
  obtain coin r where d: "d = (coin, r)"
    by (cases d)
  from select_calls_Cons [OF Cons.prems(1) [unfolded d]] obtain call rest where
    c: "calls = call # rest" "select_next_seed queue used count coin r = Inr call"
       "select_calls queue (returned_used call) (returned_count call) draws = Inr rest"
    by blast
  obtain j' where j: "j = Suc j'"
    using Cons.prems(2) by (cases j) auto
  have j'len: "j' < length rest"
    using Cons.prems(3) c(1) j by simp
  show ?case
  proof (cases i)
    case 0
    have ok: "call_ok queue used count call"
      using assms(1) c(2) by (rule select_next_seed_call_ok)
    then obtain x where x: "returned_id call = Some x" "x \<in> used_of (returned_used call)"
      using call_ok_returned by blast
    have same: "returned_id (rest ! j') = Some x"
      using Cons.prems(4) c(1) j 0 x(1) by simp
    have "\<exists>k\<le>j'. returned_new_cycle (rest ! k)"
    proof (rule ccontr)
      assume "\<not> (\<exists>k\<le>j'. returned_new_cycle (rest ! k))"
      then have "\<forall>k\<le>j'. \<not> returned_new_cycle (rest ! k)"
        by blast
      from select_calls_fresh [OF assms(1) c(3) j'len this x(2)] same show False
        by simp
    qed
    then obtain k where "k \<le> j'" "returned_new_cycle (rest ! k)"
      by blast
    then have "i < Suc k \<and> Suc k \<le> j \<and> returned_new_cycle (calls ! Suc k)"
      using 0 j c(1) by simp
    then show ?thesis by blast
  next
    case (Suc i')
    have "i' < j'" "returned_id (rest ! i') = returned_id (rest ! j')"
      using Cons.prems(2,4) c(1) j Suc by simp_all
    from Cons.IH [OF c(3) this(1) j'len this(2)] obtain k where
      "i' < k" "k \<le> j'" "returned_new_cycle (rest ! k)"
      by blast
    then have "i < Suc k \<and> Suc k \<le> j \<and> returned_new_cycle (calls ! Suc k)"
      using Suc j c(1) by simp
    then show ?thesis by blast
  qed
qed

lemma select_calls_call_ok:
  assumes "queue \<noteq> []"
    and "select_calls queue used count draws = Inr calls"
    and "k < length calls"
  shows "call_ok queue
           (if k = 0 then used else returned_used (calls ! (k - 1)))
           (if k = 0 then count else returned_count (calls ! (k - 1)))
           (calls ! k)"
  using assms(2-)
proof (induction draws arbitrary: used count calls k)
  case Nil
  then show ?case by simp
next
  case (Cons d draws)
  obtain coin r where d: "d = (coin, r)"
    by (cases d)
  from select_calls_Cons [OF Cons.prems(1) [unfolded d]] obtain call rest where
    c: "calls = call # rest" "select_next_seed queue used count coin r = Inr call"
       "select_calls queue (returned_used call) (returned_count call) draws = Inr rest"
    by blast
  show ?case
  proof (cases k)
    case 0
    then show ?thesis
      using select_next_seed_call_ok [OF assms(1) c(2)] c(1) by simp
  next
    case (Suc k')
    then have "k' < length rest"
      using Cons.prems(2) c(1) by simp
    from Cons.IH [OF c(3) this] show ?thesis
      using Suc c(1) by (cases k') simp_all
  qed
qed

lemma random_choice_total:
  "xs \<noteq> [] \<Longrightarrow> \<exists>x. random_choice xs r = Inr x"
  by (simp add: random_choice_def)

lemma select_next_seed_total:
  assumes "queue \<noteq> []" "distinct (map seed_id queue)"
    and "used_of used \<subseteq> seed_id ` set queue"
    and "count_of queue count \<le> length queue"
  shows "\<exists>call. select_next_seed queue used count coin r = Inr call"
proof -
  define boundary where "boundary \<equiv> card (used_of used) \<ge> count_of queue count"
  define cleared where "cleared \<equiv> if boundary then {} else used_of used"
  define unused where "unused \<equiv> filter (\<lambda>s. seed_id s \<notin> cleared) queue"
  have "\<exists>s\<in>set queue. seed_id s \<notin> cleared"
  proof (cases boundary)
    case True
    then show ?thesis
      using assms(1) by (cases queue) (auto simp: cleared_def)
  next
    case False
    have "card (seed_id ` set queue) = length queue"
      using distinct_card [OF assms(2)] by simp
    then have "card (used_of used) < card (seed_id ` set queue)"
      using False assms(4) by (simp add: boundary_def)
    then have "used_of used \<noteq> seed_id ` set queue"
      by auto
    then have "\<exists>x\<in>seed_id ` set queue. x \<notin> used_of used"
      using assms(3) by blast
    then show ?thesis
      using False by (auto simp: cleared_def)
  qed
  then have ne: "unused \<noteq> []"
    by (simp add: unused_def filter_empty_conv)
  have "\<exists>s. (if filter favored unused \<noteq> [] \<and> coin
                  then random_choice (filter favored unused) r
                  else random_choice unused r) = Inr s"
    using ne by (simp add: random_choice_total)
  then show ?thesis
    unfolding select_next_seed_unfold [OF assms(1)]
      boundary_def [symmetric] cleared_def [symmetric] unused_def [symmetric]
    by auto
qed

lemma call_ok_invariant:
  assumes "call_ok queue used count call"
    and "used_of used \<subseteq> seed_id ` set queue"
    and "count_of queue count \<le> length queue"
  shows "used_of (returned_used call) \<subseteq> seed_id ` set queue
       \<and> count_of queue (returned_count call) \<le> length queue"
  using assms
  by (auto simp: call_ok_def Let_def used_of_def count_of_def split: if_splits)

lemma select_calls_total:
  assumes "queue \<noteq> []" "distinct (map seed_id queue)"
    and "used_of used \<subseteq> seed_id ` set queue"
    and "count_of queue count \<le> length queue"
  shows "\<exists>calls. select_calls queue used count draws = Inr calls"
  using assms(3,4)
proof (induction draws arbitrary: used count)
  case Nil
  then show ?case by simp
next
  case (Cons d draws)
  obtain coin r where d: "d = (coin, r)"
    by (cases d)
  from select_next_seed_total [OF assms(1,2) Cons.prems] obtain call where
    call: "select_next_seed queue used count coin r = Inr call"
    by blast
  have "call_ok queue used count call"
    using assms(1) call by (rule select_next_seed_call_ok)
  from call_ok_invariant [OF this Cons.prems]
  have "\<exists>calls. select_calls queue (returned_used call) (returned_count call) draws = Inr calls"
    using Cons.IH by blast
  then show ?case
    using call d by (auto simp: returned_used_def returned_count_def split: prod.splits)
qed


text \<open>
  C7. For every sequence of calls to \<open>select_next_seed\<close> on a non-empty queue of seeds
  with pairwise distinct ids, each call given the used set and the cycle size returned by
  the one before: when two calls return the same seed id, a call after the first of them,
  up to and including the second, returned the new-cycle flag, so no id is returned twice
  between new-cycle signals; and every call returns the flag exactly when the used set it
  was given has reached the cycle size, in which case it clears the used set and sets the
  cycle size to the queue length, before adding the selected id to the used set. When the
  first call is given a used set of ids of the queue and a cycle size of at most the queue
  length (the defaults, or what the main loop passes), no call raises.
\<close>

theorem select_next_seed_cycles:
  assumes "queue \<noteq> []" "distinct (map seed_id queue)"
  shows "(used_of used \<subseteq> seed_id ` set queue \<and> count_of queue count \<le> length queue
          \<longrightarrow> (\<exists>calls. select_calls queue used count draws = Inr calls))
       \<and> (\<forall>calls. select_calls queue used count draws = Inr calls \<longrightarrow>
            length calls = length draws
          \<and> (\<forall>i j. i < j \<and> j < length calls
                  \<and> returned_id (calls ! i) = returned_id (calls ! j)
                  \<longrightarrow> (\<exists>k. i < k \<and> k \<le> j \<and> returned_new_cycle (calls ! k)))
          \<and> (\<forall>k<length calls.
                 call_ok queue
                   (if k = 0 then used else returned_used (calls ! (k - 1)))
                   (if k = 0 then count else returned_count (calls ! (k - 1)))
                   (calls ! k)))"
proof (intro conjI impI allI)
  assume "used_of used \<subseteq> seed_id ` set queue \<and> count_of queue count \<le> length queue"
  then show "\<exists>calls. select_calls queue used count draws = Inr calls"
    using select_calls_total [OF assms] by blast
next
  fix calls assume "select_calls queue used count draws = Inr calls"
  then show "length calls = length draws"
    by (rule select_calls_length)
next
  fix calls i j
  assume "select_calls queue used count draws = Inr calls"
    and "i < j \<and> j < length calls \<and> returned_id (calls ! i) = returned_id (calls ! j)"
  then show "\<exists>k. i < k \<and> k \<le> j \<and> returned_new_cycle (calls ! k)"
    using select_calls_no_repeat [OF assms(1)] by blast
next
  fix calls k
  assume "select_calls queue used count draws = Inr calls" "k < length calls"
  then show "call_ok queue
                   (if k = 0 then used else returned_used (calls ! (k - 1)))
                   (if k = 0 then count else returned_count (calls ! (k - 1)))
                   (calls ! k)"
    by (rule select_calls_call_ok [OF assms(1)])
qed

theorem select_next_seed_cycles_witness:
  "\<exists>calls. select_calls
      [\<lparr>path = ''a'', seed_id = 0, coverage = {1}, exec_time = 2, file_size = 5, favored = True\<rparr>,
      \<lparr>path = ''b'', seed_id = 1, coverage = {3}, exec_time = 4, file_size = 5, favored = False\<rparr>]
      None None [(True, 0), (True, 0), (False, 1)] = Inr calls
     \<and> length calls = 3
     \<and> call_ok
      [\<lparr>path = ''a'', seed_id = 0, coverage = {1}, exec_time = 2, file_size = 5, favored = True\<rparr>,
      \<lparr>path = ''b'', seed_id = 1, coverage = {3}, exec_time = 4, file_size = 5, favored = False\<rparr>]
      None None (calls ! 0)
     \<and> returned_id (calls ! 1) = Some 1 \<and> returned_id (calls ! 2) = Some 1
     \<and> (\<exists>k. 1 < k \<and> k \<le> 2 \<and> returned_new_cycle (calls ! k))"
proof -
  let ?q = "[\<lparr>path = ''a'', seed_id = 0, coverage = {1}, exec_time = 2, file_size = 5, favored = True\<rparr>,
      \<lparr>path = ''b'', seed_id = 1, coverage = {3}, exec_time = 4, file_size = 5, favored = False\<rparr>]"
  let ?d = "[(True, 0), (True, 0), (False, 1)] :: (bool \<times> nat) list"
  have h1: "?q \<noteq> []"
    by simp
  have h2: "distinct (map seed_id ?q)"
    by simp
  have h3: "used_of None \<subseteq> seed_id ` set ?q \<and> count_of ?q None \<le> length ?q"
    by (simp add: used_of_def count_of_def)
  note cycles = select_next_seed_cycles [OF h1 h2, of None None ?d]
  from cycles h3 obtain calls where calls: "select_calls ?q None None ?d = Inr calls"
    by blast
  with cycles have len: "length calls = length ?d"
    and ok: "\<forall>k<length calls. call_ok ?q
                   (if k = 0 then None else returned_used (calls ! (k - 1)))
                   (if k = 0 then None else returned_count (calls ! (k - 1)))
                   (calls ! k)"
    and rep: "\<forall>i j. i < j \<and> j < length calls
                  \<and> returned_id (calls ! i) = returned_id (calls ! j)
                  \<longrightarrow> (\<exists>k. i < k \<and> k \<le> j \<and> returned_new_cycle (calls ! k))"
    by blast+
  from len have three: "length calls = 3"
    by simp
  from three ok have first: "call_ok ?q None None (calls ! 0)"
    by force
  have "select_calls ?q None None ?d
      = Inr [(Some (?q ! 0), Some {0}, Some 2, False),
             (Some (?q ! 1), Some {1, 0}, Some 2, False),
             (Some (?q ! 1), Some {1}, Some 2, True)]"
    by (simp add: select_next_seed_def random_choice_def Let_def)
  with calls have ids: "returned_id (calls ! 1) = Some 1" "returned_id (calls ! 2) = Some 1"
    by (auto simp: returned_id_def)
  then have "(1::nat) < 2 \<and> 2 < length calls
      \<and> returned_id (calls ! 1) = returned_id (calls ! 2)"
    using three by simp
  with rep have "\<exists>k. 1 < k \<and> k \<le> 2 \<and> returned_new_cycle (calls ! k)"
    by blast
  then show ?thesis
    using calls three first ids by blast
qed


subsection \<open>The mutation engine\<close>

text \<open>No mutator raises on a non-empty buffer, and none shortens it.\<close>

lemma randint_ok:
  "a \<le> b \<Longrightarrow> \<exists>v. randint a b g = Inr (v, rng_tail g) \<and> a \<le> v \<and> v \<le> b"
proof -
  assume ab: "a \<le> b"
  have "g 0 mod nat (b - a + 1) < nat (b - a + 1)"
    using ab by simp
  then have "int (g 0 mod nat (b - a + 1)) \<le> b - a"
    using ab by linarith
  then show ?thesis
    using ab by (simp add: randint_def)
qed

lemma choice_ok:
  "xs \<noteq> [] \<Longrightarrow> \<exists>x. choice xs g = Inr (x, rng_tail g) \<and> x \<in> set xs"
  by (simp add: choice_def random_choice_def)

lemma pack_into_ok:
  assumes "idx + sz \<le> length data" "- (2 ^ (8 * sz - 1)) \<le> v" "v < 2 ^ (8 * sz - 1)"
  shows "\<exists>data'. pack_into sz data idx v = Inr data' \<and> length data' = length data"
  using assms by (simp add: pack_into_def pack_le_def)

lemma pack_into_cases:
  "pack_into sz data idx v = Inl StructError
   \<or> (\<exists>data'. pack_into sz data idx v = Inr data' \<and> length data' = length data)"
  by (simp add: pack_into_def pack_le_def)

lemma bit_flip_mutation_ok:
  assumes "data \<noteq> []"
  shows "grows data (bit_flip_mutation data g)"
proof -
  have "0 \<le> int (length data) - 1"
    using assms by (cases data) simp_all
  from randint_ok [OF this, of g] obtain idx where
    idx: "randint 0 (int (length data) - 1) g = Inr (idx, rng_tail g)"
    by blast
  from randint_ok [of 0 7 "rng_tail g"] obtain bit_pos where
    bit_pos: "randint 0 7 (rng_tail g) = Inr (bit_pos, rng_tail (rng_tail g))"
    by auto
  show ?thesis
    by (simp add: bit_flip_mutation_def idx bit_pos grows_def)
qed

lemma integer_mutation_ok:
  "grows data (integer_mutation data g)"
proof -
  let ?sizes = "[(2::nat, -32768::int, 32767::int),
                   (4, -2147483648, 2147483647),
                   (8, -9223372036854775808, 9223372036854775807)]"
  from choice_ok [of ?sizes g] obtain sz min_val max_val where
    c: "choice ?sizes g = Inr ((sz, min_val, max_val), rng_tail g)"
       "(sz, min_val, max_val) \<in> set ?sizes"
    by auto
  then have range: "min_val \<le> max_val" "min_val = - (2 ^ (8 * sz - 1))" "max_val = 2 ^ (8 * sz - 1) - 1"
    by auto
  show ?thesis
  proof (cases "length data < sz")
    case True
    then show ?thesis
      by (simp add: integer_mutation_def c(1) grows_def)
  next
    case False
    then have "0 \<le> int (length data) - int sz"
      by simp
    from randint_ok [OF this, of "rng_tail g"] obtain idx where
      idx: "randint 0 (int (length data) - int sz) (rng_tail g) = Inr (idx, rng_tail (rng_tail g))"
        "0 \<le> idx" "idx \<le> int (length data) - int sz"
      by blast
    from randint_ok [OF range(1), of "rng_tail (rng_tail g)"] obtain v where
      v: "randint min_val max_val (rng_tail (rng_tail g)) = Inr (v, rng_tail (rng_tail (rng_tail g)))"
        "min_val \<le> v" "v \<le> max_val"
      by blast
    have "nat idx + sz \<le> length data"
      using idx(2,3) by linarith
    moreover have "- (2 ^ (8 * sz - 1)) \<le> v" "v < 2 ^ (8 * sz - 1)"
      using v(2,3) range(2,3) by simp_all
    ultimately obtain data' where
      "pack_into sz data (nat idx) v = Inr data'" "length data' = length data"
      using pack_into_ok by blast
    then show ?thesis
      using False by (simp add: integer_mutation_def c(1) idx(1) v(1) grows_def)
  qed
qed

lemma pack_fallback_ok:
  assumes "idx + sz \<le> length data" "sz \<in> {2, 4, 8}"
  shows "\<exists>data'. pack_into sz data idx (push_bit (sz * 8 - 1) 1 - 1) = Inr data'
            \<and> length data' = length data"
    and "\<exists>data'. pack_into sz data idx (- push_bit (sz * 8 - 1) 1) = Inr data'
            \<and> length data' = length data"
proof -
  have "sz * 8 - 1 = 8 * sz - 1"
    by simp
  then have p: "push_bit (sz * 8 - 1) (1::int) = 2 ^ (8 * sz - 1)"
    by (simp add: push_bit_eq_mult)
  show "\<exists>data'. pack_into sz data idx (push_bit (sz * 8 - 1) 1 - 1) = Inr data'
            \<and> length data' = length data"
    unfolding p using assms(1) by (intro pack_into_ok) simp_all
  show "\<exists>data'. pack_into sz data idx (- push_bit (sz * 8 - 1) 1) = Inr data'
            \<and> length data' = length data"
    unfolding p using assms(1) by (intro pack_into_ok) simp_all
qed

lemma interesting_value_mutation_ok:
  "grows data (interesting_value_mutation data g)"
proof -
  let ?sizes = "[(2::nat, [-32768, 32767, -1, 0, 1, -128, 127, 255, -256, 256, 32767 :: int]),
                   (4, INTERESTING_32),
                   (8, INTERESTING_64)]"
  from choice_ok [of ?sizes g] obtain sz interesting_vals where
    c: "choice ?sizes g = Inr ((sz, interesting_vals), rng_tail g)"
       "(sz, interesting_vals) \<in> set ?sizes"
    by auto
  then have sz: "sz \<in> {2, 4, 8}" and ne: "interesting_vals \<noteq> []"
    by (auto simp: INTERESTING_32_def INTERESTING_64_def)
  show ?thesis
  proof (cases "length data < sz")
    case True
    then show ?thesis
      by (simp add: interesting_value_mutation_def c(1) grows_def)
  next
    case False
    then have "0 \<le> int (length data) - int sz"
      by simp
    from randint_ok [OF this, of "rng_tail g"] obtain idx where
      idx: "randint 0 (int (length data) - int sz) (rng_tail g) = Inr (idx, rng_tail (rng_tail g))"
        "0 \<le> idx" "idx \<le> int (length data) - int sz"
      by blast
    from choice_ok [OF ne, of "rng_tail (rng_tail g)"] obtain v where
      v: "choice interesting_vals (rng_tail (rng_tail g)) = Inr (v, rng_tail (rng_tail (rng_tail g)))"
      by blast
    have fits: "nat idx + sz \<le> length data"
      using idx(2,3) by linarith
    from pack_into_cases [of sz data "nat idx" v] show ?thesis
    proof
      assume e: "pack_into sz data (nat idx) v = Inl StructError"
      from pack_fallback_ok [OF fits sz] obtain d1 d2 where
        "pack_into sz data (nat idx) (push_bit (sz * 8 - 1) 1 - 1) = Inr d1" "length d1 = length data"
        "pack_into sz data (nat idx) (- push_bit (sz * 8 - 1) 1) = Inr d2" "length d2 = length data"
        by blast
      then show ?thesis
        using False
        by (simp add: interesting_value_mutation_def c(1) idx(1) v e grows_def)
    next
      assume "\<exists>data'. pack_into sz data (nat idx) v = Inr data' \<and> length data' = length data"
      then obtain data' where "pack_into sz data (nat idx) v = Inr data'" "length data' = length data"
        by blast
      then show ?thesis
        using False
        by (simp add: interesting_value_mutation_def c(1) idx(1) v grows_def)
    qed
  qed
qed

lemma chunk_replacement_mutation_ok:
  "grows data (chunk_replacement_mutation data g)"
proof (cases "length data < 4")
  case True
  then show ?thesis
    by (simp add: chunk_replacement_mutation_def grows_def)
next
  case False
  then have "2 \<le> int (length data) div 2"
    by linarith
  then have "2 \<le> py_min 32 (int (length data) div 2)"
    by (simp add: py_min_def)
  from randint_ok [OF this, of g] obtain chunk_size where
    cs: "randint 2 (py_min 32 (int (length data) div 2)) g = Inr (chunk_size, rng_tail g)"
      "2 \<le> chunk_size" "chunk_size \<le> py_min 32 (int (length data) div 2)"
    by blast
  have le: "chunk_size \<le> int (length data)"
    using cs(3) by (simp add: py_min_def split: if_splits)
  then have r: "0 \<le> int (length data) - chunk_size"
    by simp
  from randint_ok [OF r, of "rng_tail g"] obtain src_pos where
    src: "randint 0 (int (length data) - chunk_size) (rng_tail g) = Inr (src_pos, rng_tail (rng_tail g))"
      "0 \<le> src_pos" "src_pos \<le> int (length data) - chunk_size"
    by blast
  from randint_ok [OF r, of "rng_tail (rng_tail g)"] obtain dst_pos where
    dst: "randint 0 (int (length data) - chunk_size) (rng_tail (rng_tail g))
            = Inr (dst_pos, rng_tail (rng_tail (rng_tail g)))"
      "0 \<le> dst_pos" "dst_pos \<le> int (length data) - chunk_size"
    by blast
  have "nat src_pos + nat chunk_size \<le> length data" "nat dst_pos + nat chunk_size \<le> length data"
    using src(2,3) dst(2,3) cs(2) by linarith+
  then show ?thesis
    using False
    by (simp add: chunk_replacement_mutation_def cs(1) src(1) dst(1) grows_def Let_def)
qed

lemma unpack_from_ok:
  "idx + sz \<le> length data \<Longrightarrow> \<exists>v. unpack_from sz data idx = Inr v"
  by (simp add: unpack_from_def Let_def)

lemma arithmetic_mutation_ok:
  "grows data (arithmetic_mutation data g)"
proof -
  let ?sizes = "[(2::nat, -256::int, 256::int), (4, -65536, 65536), (8, -4294967296, 4294967296)]"
  from choice_ok [of ?sizes g] obtain sz min_delta max_delta where
    c: "choice ?sizes g = Inr ((sz, min_delta, max_delta), rng_tail g)"
       "(sz, min_delta, max_delta) \<in> set ?sizes"
    by auto
  then have range: "min_delta \<le> max_delta"
    and lo: "- (2 ^ (8 * sz - 1)) \<le> min_delta" "min_delta < 2 ^ (8 * sz - 1)"
    and hi: "- (2 ^ (8 * sz - 1)) \<le> max_delta" "max_delta < 2 ^ (8 * sz - 1)"
    by auto
  show ?thesis
  proof (cases "length data < sz")
    case True
    then show ?thesis
      by (simp add: arithmetic_mutation_def c(1) grows_def)
  next
    case False
    then have "0 \<le> int (length data) - int sz"
      by simp
    from randint_ok [OF this, of "rng_tail g"] obtain idx where
      idx: "randint 0 (int (length data) - int sz) (rng_tail g) = Inr (idx, rng_tail (rng_tail g))"
        "0 \<le> idx" "idx \<le> int (length data) - int sz"
      by blast
    have fits: "nat idx + sz \<le> length data"
      using idx(2,3) by linarith
    from unpack_from_ok [OF fits] obtain v where v: "unpack_from sz data (nat idx) = Inr v"
      by blast
    from randint_ok [OF range, of "rng_tail (rng_tail g)"] obtain delta where
      delta: "randint min_delta max_delta (rng_tail (rng_tail g))
                = Inr (delta, rng_tail (rng_tail (rng_tail g)))"
      by blast
    from pack_into_ok [OF fits lo] pack_into_ok [OF fits hi] obtain d1 d2 where
      fallback: "pack_into sz data (nat idx) min_delta = Inr d1" "length d1 = length data"
        "pack_into sz data (nat idx) max_delta = Inr d2" "length d2 = length data"
      by blast
    from pack_into_cases [of sz data "nat idx" "v + delta"] show ?thesis
    proof
      assume e: "pack_into sz data (nat idx) (v + delta) = Inl StructError"
      show ?thesis
        using False fallback
        by (simp add: arithmetic_mutation_def c(1) idx(1) v delta e grows_def)
    next
      assume "\<exists>data'. pack_into sz data (nat idx) (v + delta) = Inr data' \<and> length data' = length data"
      then obtain data' where
        "pack_into sz data (nat idx) (v + delta) = Inr data'" "length data' = length data"
        by blast
      then show ?thesis
        using False
        by (simp add: arithmetic_mutation_def c(1) idx(1) v delta grows_def)
    qed
  qed
qed

lemma dictionary_insert_mutation_ok:
  assumes "data \<noteq> []"
  shows "grows data (dictionary_insert_mutation dictionary data g)"
proof (cases "dictionary = []")
  case True
  then show ?thesis
    by (simp add: dictionary_insert_mutation_def grows_def)
next
  case False
  from choice_ok [OF this, of g] obtain token where
    token: "choice dictionary g = Inr (token, rng_tail g)"
    by blast
  have "0 \<le> int (length data) - 1"
    using assms by (cases data) simp_all
  from randint_ok [OF this, of "rng_tail g"] obtain pos where
    pos: "randint 0 (int (length data) - 1) (rng_tail g) = Inr (pos, rng_tail (rng_tail g))"
    by blast
  show ?thesis
    using False by (auto simp: dictionary_insert_mutation_def token pos grows_def min_def)
qed

lemma dictionary_replace_mutation_ok:
  "grows data (dictionary_replace_mutation dictionary data g)"
proof (cases "dictionary = [] \<or> length data < 2")
  case True
  then show ?thesis
    by (auto simp: dictionary_replace_mutation_def grows_def)
next
  case False
  then have "dictionary \<noteq> []"
    by simp
  from choice_ok [OF this, of g] obtain token where
    token: "choice dictionary g = Inr (token, rng_tail g)"
    by blast
  show ?thesis
  proof (cases "length token > length data")
    case True
    then show ?thesis
      using False by (simp add: dictionary_replace_mutation_def token grows_def)
  next
    case fits: False
    then have "0 \<le> int (length data) - int (length token)"
      by simp
    from randint_ok [OF this, of "rng_tail g"] obtain pos where
      pos: "randint 0 (int (length data) - int (length token)) (rng_tail g)
              = Inr (pos, rng_tail (rng_tail g))"
        "0 \<le> pos" "pos \<le> int (length data) - int (length token)"
      by blast
    have "nat pos + length token \<le> length data"
      using pos(2,3) by linarith
    then show ?thesis
      using False fits by (simp add: dictionary_replace_mutation_def token pos(1) grows_def)
  qed
qed

lemma havoc_round_ok:
  assumes "data \<noteq> []"
  shows "grows data (havoc_round dictionary data g)"
proof -
  from randint_ok [of 0 6 g] obtain mutation_choice where
    "randint 0 6 g = Inr (mutation_choice, rng_tail g)"
    by auto
  then show ?thesis
    using assms
    by (simp add: havoc_round_def bit_flip_mutation_ok integer_mutation_ok
        interesting_value_mutation_ok chunk_replacement_mutation_ok
        dictionary_insert_mutation_ok dictionary_replace_mutation_ok arithmetic_mutation_ok)
qed

lemma havoc_rounds_ok:
  assumes "data \<noteq> []"
  shows "grows data (havoc_rounds dictionary n data g)"
  using assms
proof (induction n arbitrary: data g)
  case 0
  then show ?case by (simp add: grows_def)
next
  case (Suc n)
  from havoc_round_ok [OF Suc.prems, of dictionary g] obtain data' g' where
    r: "havoc_round dictionary data g = Inr (data', g')" "length data \<le> length data'"
    by (auto simp: grows_def)
  then have "data' \<noteq> []"
    using Suc.prems by auto
  from Suc.IH [OF this, of g'] show ?case
    using r by (auto simp: grows_def)
qed

lemma havoc_bytes_ok:
  assumes "data \<noteq> []"
  shows "grows data (havoc_bytes dictionary data g)"
proof -
  have "1 \<le> py_max 4 (int (length data) div 100)"
    by (simp add: py_max_def)
  from randint_ok [OF this, of g] obtain num_mutations where
    "randint 1 (py_max 4 (int (length data) div 100)) g = Inr (num_mutations, rng_tail g)"
    by blast
  then show ?thesis
    using havoc_rounds_ok [OF assms] by (simp add: havoc_bytes_def)
qed


lemma choice_mem:
  "choice xs g = Inr (x, g') \<Longrightarrow> x \<in> set xs \<and> g' = rng_tail g"
  by (auto simp: choice_def random_choice_def split: if_splits)

lemma havoc_mutate_long:
  assumes "fs (path seed) = Some data" "8 \<le> length data"
  shows "\<exists>data' g'. havoc_bytes dictionary data g = Inr (data', g')
           \<and> havoc_mutate conf dictionary seed fs g = Inr (fs(current_input conf \<mapsto> data'), g')"
proof -
  have "data \<noteq> []"
    using assms(2) by auto
  from havoc_bytes_ok [OF this, of dictionary g] obtain data' g' where
    "havoc_bytes dictionary data g = Inr (data', g')"
    by (auto simp: grows_def)
  then show ?thesis
    using assms by (simp add: havoc_mutate_def)
qed


lemma havoc_mutate_short:
  assumes "fs (path seed) = Some data" "length data < 8"
  shows "havoc_mutate conf dictionary seed fs g = Inr (fs, g)"
  using assms by (simp add: havoc_mutate_def)


text \<open>
  C4. The claim as written fails when the selected seed's file has 4 to 7 bytes: the
  splice is written to \<open>current_input\<close>, and the havoc that follows returns at its
  length test without writing, so \<open>current_input\<close> ends with the spliced bytes and not
  with a havoc of the seed. Here the seed's file is 1 2 3 4, the partner's 5 6 7 8, both
  split points are 1, and \<open>current_input\<close> ends as 1 6 7 8.
\<close>

theorem splice_short_seed_keeps_spliced_bytes:
  "splice_mutate
     \<lparr>queue_folder = ''q'', crashes_folder = ''c'', current_input = ''cur''\<rparr> []
     \<lparr>path = ''a'', seed_id = 0, coverage = {1}, exec_time = 1, file_size = 4, favored = False\<rparr>
     [\<lparr>path = ''a'', seed_id = 0, coverage = {1}, exec_time = 1, file_size = 4, favored = False\<rparr>,
      \<lparr>path = ''b'', seed_id = 1, coverage = {2}, exec_time = 1, file_size = 4, favored = False\<rparr>]
     [''a'' \<mapsto> [1, 2, 3, 4], ''b'' \<mapsto> [5, 6, 7, 8]]
     (\<lambda>n. 0)
   = Inr ([''a'' \<mapsto> [1, 2, 3, 4], ''b'' \<mapsto> [5, 6, 7, 8], ''cur'' \<mapsto> [1, 6, 7, 8]],
          rng_tail (rng_tail (rng_tail (\<lambda>n. 0))))"
  by (simp add: splice_mutate_def splice_write_def choice_def random_choice_def randint_def
      havoc_mutate_def rng_tail_def)


text \<open>
  C4, amended. Whenever the queue has at least two seeds, a partner is drawn among the
  seeds whose id differs from the selected seed's, both files have at least 4 bytes, and
  the seed's file is not \<open>current_input\<close> itself, the two split points are the next two
  draws, \<open>p1\<close> in \<open>[1, len1 - 2]\<close> and \<open>p2\<close> in \<open>[1, len2 - 2]\<close>; \<open>splice_write\<close> writes
  \<open>a[:p1] + b[p2:]\<close> to \<open>current_input\<close>; and \<open>splice_mutate\<close> is the havoc mutator
  run on the seed after that write. If the seed's file has at least 8 bytes, the havoc
  mutator overwrites \<open>current_input\<close> with a havoc of the seed's own file, which is its
  final content. If it has 4 to 7 bytes, the havoc mutator returns at its length test and
  the final content of \<open>current_input\<close> is the spliced bytes.
\<close>

theorem splice_mutate_overwritten_by_havoc:
  assumes "2 \<le> length queue"
    and "choice (filter (\<lambda>s. seed_id s \<noteq> seed_id seed) queue) g = Inr (other_seed, g1)"
    and "fs (path seed) = Some data1" "4 \<le> length data1"
    and "fs (path other_seed) = Some data2" "4 \<le> length data2"
    and "path seed \<noteq> current_input conf"
  shows "\<exists>p1 p2.
           randint 1 (int (length data1) - 2) g1 = Inr (int p1, rng_tail g1)
         \<and> randint 1 (int (length data2) - 2) (rng_tail g1)
             = Inr (int p2, rng_tail (rng_tail g1))
         \<and> 1 \<le> p1 \<and> p1 \<le> length data1 - 2 \<and> 1 \<le> p2 \<and> p2 \<le> length data2 - 2
         \<and> other_seed \<in> set queue \<and> seed_id other_seed \<noteq> seed_id seed
         \<and> splice_write conf seed queue fs g
             = Inr (fs(current_input conf \<mapsto> take p1 data1 @ drop p2 data2),
                    rng_tail (rng_tail g1))
         \<and> splice_mutate conf dictionary seed queue fs g
             = havoc_mutate conf dictionary seed
                 (fs(current_input conf \<mapsto> take p1 data1 @ drop p2 data2))
                 (rng_tail (rng_tail g1))
         \<and> (if 8 \<le> length data1
            then \<exists>data' g3.
                   havoc_bytes dictionary data1 (rng_tail (rng_tail g1)) = Inr (data', g3)
                 \<and> splice_mutate conf dictionary seed queue fs g
                     = Inr (fs(current_input conf \<mapsto> data'), g3)
            else splice_mutate conf dictionary seed queue fs g
                   = Inr (fs(current_input conf \<mapsto> take p1 data1 @ drop p2 data2),
                          rng_tail (rng_tail g1)))"
proof -
  have other: "other_seed \<in> set queue" "seed_id other_seed \<noteq> seed_id seed"
    using choice_mem [OF assms(2)] by simp_all
  have "1 \<le> int (length data1) - 2"
    using assms(4) by simp
  from randint_ok [OF this, of g1] obtain split_point1 where
    s1: "randint 1 (int (length data1) - 2) g1 = Inr (split_point1, rng_tail g1)"
      "1 \<le> split_point1" "split_point1 \<le> int (length data1) - 2"
    by blast
  have "1 \<le> int (length data2) - 2"
    using assms(6) by simp
  from randint_ok [OF this, of "rng_tail g1"] obtain split_point2 where
    s2: "randint 1 (int (length data2) - 2) (rng_tail g1) = Inr (split_point2, rng_tail (rng_tail g1))"
      "1 \<le> split_point2" "split_point2 \<le> int (length data2) - 2"
    by blast
  define p1 where "p1 = nat split_point1"
  define p2 where "p2 = nat split_point2"
  have p: "split_point1 = int p1" "split_point2 = int p2"
    using s1(2) s2(2) by (simp_all add: p1_def p2_def)
  have range: "1 \<le> p1" "p1 \<le> length data1 - 2" "1 \<le> p2" "p2 \<le> length data2 - 2"
    using s1(2,3) s2(2,3) unfolding p by linarith+
  let ?spliced = "take p1 data1 @ drop p2 data2"
  let ?fs = "fs(current_input conf \<mapsto> ?spliced)"
  let ?g2 = "rng_tail (rng_tail g1)"
  have w: "splice_write conf seed queue fs g = Inr (?fs, ?g2)"
    using assms(3-6) s1(1) s2(1) unfolding p
    by (simp add: splice_write_def Let_def assms(2))
  have splice: "splice_mutate conf dictionary seed queue fs g
      = havoc_mutate conf dictionary seed ?fs ?g2"
    using assms(1) by (simp add: splice_mutate_def w)
  have seed_file: "?fs (path seed) = Some data1"
    using assms(3,7) by simp
  have final: "if 8 \<le> length data1
            then \<exists>data' g3.
                   havoc_bytes dictionary data1 ?g2 = Inr (data', g3)
                 \<and> splice_mutate conf dictionary seed queue fs g
                     = Inr (fs(current_input conf \<mapsto> data'), g3)
            else splice_mutate conf dictionary seed queue fs g = Inr (?fs, ?g2)"
  proof (cases "8 \<le> length data1")
    case True
    from havoc_mutate_long [of ?fs seed data1 dictionary ?g2 conf, OF seed_file True]
    obtain data' g3 where
      h: "havoc_bytes dictionary data1 ?g2 = Inr (data', g3)"
         "havoc_mutate conf dictionary seed ?fs ?g2 = Inr (?fs(current_input conf \<mapsto> data'), g3)"
      by blast
    have "splice_mutate conf dictionary seed queue fs g
             = Inr (fs(current_input conf \<mapsto> data'), g3)"
      using splice h(2) by simp
    with h(1) True show ?thesis
      by auto
  next
    case False
    then have "length data1 < 8"
      by simp
    from havoc_mutate_short [of ?fs seed data1 conf dictionary ?g2, OF seed_file this] splice False
    show ?thesis
      by simp
  qed
  show ?thesis
    using s1(1) s2(1) range other w splice final unfolding p by blast
qed


theorem splice_mutate_overwritten_by_havoc_witness:
  "splice_write example_conf (example_seed 8) [example_seed 8, example_partner]
     [''q/s0'' \<mapsto> [1, 2, 3, 4, 5, 6, 7, 8], ''q/s1'' \<mapsto> [5, 6, 7, 8]] (\<lambda>n. 0)
   = Inr ([''q/s0'' \<mapsto> [1, 2, 3, 4, 5, 6, 7, 8], ''q/s1'' \<mapsto> [5, 6, 7, 8],
           ''cur'' \<mapsto> [1, 6, 7, 8]], rng_tail (rng_tail (rng_tail (\<lambda>n. 0))))
   \<and> (\<exists>data' g3.
         havoc_bytes [] [1, 2, 3, 4, 5, 6, 7, 8] (rng_tail (rng_tail (rng_tail (\<lambda>n. 0))))
           = Inr (data', g3)
       \<and> splice_mutate example_conf [] (example_seed 8) [example_seed 8, example_partner]
           [''q/s0'' \<mapsto> [1, 2, 3, 4, 5, 6, 7, 8], ''q/s1'' \<mapsto> [5, 6, 7, 8]] (\<lambda>n. 0)
         = Inr ([''q/s0'' \<mapsto> [1, 2, 3, 4, 5, 6, 7, 8], ''q/s1'' \<mapsto> [5, 6, 7, 8],
                 ''cur'' \<mapsto> data'], g3))"
proof -
  let ?queue = "[example_seed 8, example_partner]"
  let ?fs = "[''q/s0'' \<mapsto> [1, 2, 3, 4, 5, 6, 7, 8], ''q/s1'' \<mapsto> [5, 6, 7, 8]] :: files"
  let ?g1 = "rng_tail (\<lambda>n. 0)"
  have h: "2 \<le> length ?queue"
    "choice (filter (\<lambda>s. seed_id s \<noteq> seed_id (example_seed 8)) ?queue) (\<lambda>n. 0)
       = Inr (example_partner, ?g1)"
    "?fs (path (example_seed 8)) = Some [1, 2, 3, 4, 5, 6, 7, 8]"
    "4 \<le> length [1, 2, 3, 4, 5, 6, 7, 8 :: byte]"
    "?fs (path example_partner) = Some [5, 6, 7, 8]"
    "4 \<le> length [5, 6, 7, 8 :: byte]"
    "path (example_seed 8) \<noteq> current_input example_conf"
    by (simp_all add: choice_def random_choice_def)
  from splice_mutate_overwritten_by_havoc [OF h, of "[]"] obtain p1 p2 where
    r: "randint 1 (int (length [1, 2, 3, 4, 5, 6, 7, 8 :: byte]) - 2) ?g1 = Inr (int p1, rng_tail ?g1)"
       "randint 1 (int (length [5, 6, 7, 8 :: byte]) - 2) (rng_tail ?g1)
          = Inr (int p2, rng_tail (rng_tail ?g1))"
    and w: "splice_write example_conf (example_seed 8) ?queue ?fs (\<lambda>n. 0)
          = Inr (?fs(current_input example_conf \<mapsto>
                   take p1 [1, 2, 3, 4, 5, 6, 7, 8] @ drop p2 [5, 6, 7, 8]),
                 rng_tail (rng_tail ?g1))"
    and f: "if 8 \<le> length [1, 2, 3, 4, 5, 6, 7, 8 :: byte]
            then \<exists>data' g3.
                   havoc_bytes [] [1, 2, 3, 4, 5, 6, 7, 8] (rng_tail (rng_tail ?g1)) = Inr (data', g3)
                 \<and> splice_mutate example_conf [] (example_seed 8) ?queue ?fs (\<lambda>n. 0)
                     = Inr (?fs(current_input example_conf \<mapsto> data'), g3)
            else splice_mutate example_conf [] (example_seed 8) ?queue ?fs (\<lambda>n. 0)
                   = Inr (?fs(current_input example_conf \<mapsto>
                            take p1 [1, 2, 3, 4, 5, 6, 7, 8] @ drop p2 [5, 6, 7, 8]),
                          rng_tail (rng_tail ?g1))"
    by blast
  have "p1 = 1" "p2 = 1"
    using r by (simp_all add: randint_def rng_tail_def)
  with w f show ?thesis
    by simp
qed


subsection \<open>The main loop: the stages of a run\<close>

text \<open>A mutation writes no file but \<open>current_input\<close>.\<close>

lemma havoc_mutate_frame:
  assumes "havoc_mutate conf dictionary seed fs g = Inr (fs', g')" "p \<noteq> current_input conf"
  shows "fs' p = fs p"
  using assms
  by (auto simp: havoc_mutate_def split: option.splits if_splits sum.splits)

lemma splice_mutate_cases:
  assumes "splice_mutate conf dictionary seed queue fs g = Inr r"
  shows "(\<exists>g2. havoc_mutate conf dictionary seed fs g2 = Inr r)
       \<or> (\<exists>spliced g2. havoc_mutate conf dictionary seed
               (fs(current_input conf \<mapsto> spliced)) g2 = Inr r)"
  using assms
  by (auto simp: splice_mutate_def splice_write_def Let_def
      split: if_splits sum.splits option.splits prod.splits)

lemma splice_mutate_frame:
  assumes "splice_mutate conf dictionary seed queue fs g = Inr (fs', g')" "p \<noteq> current_input conf"
  shows "fs' p = fs p"
  using splice_mutate_cases [OF assms(1)]
proof
  assume "\<exists>g2. havoc_mutate conf dictionary seed fs g2 = Inr (fs', g')"
  then show ?thesis
    using havoc_mutate_frame assms(2) by blast
next
  assume "\<exists>spliced g2. havoc_mutate conf dictionary seed
               (fs(current_input conf \<mapsto> spliced)) g2 = Inr (fs', g')"
  then obtain spliced g2 where
    "havoc_mutate conf dictionary seed (fs(current_input conf \<mapsto> spliced)) g2 = Inr (fs', g')"
    by blast
  from havoc_mutate_frame [OF this assms(2)] show ?thesis
    using assms(2) by simp
qed

lemma apply_operator_frame:
  assumes "apply_operator conf dictionary operator seed queue fs g = Inr (fs', g')"
    "p \<noteq> current_input conf"
  shows "fs' p = fs p"
  using assms havoc_mutate_frame splice_mutate_frame
  by (auto simp: apply_operator_def split: if_splits)

lemma handle_result_timeout:
  "status_code obs = 9 \<Longrightarrow> handle_result conf seed operator obs st = Inr st"
  by (simp add: handle_result_def)



lemma handle_result_logs:
  assumes "handle_result conf seed operator obs st = Inr st'" "status_code obs \<noteq> 9"
  shows "check_crash_calls st' = check_crash_calls st @ [status_code obs]
       \<and> (saved_crashes st' = saved_crashes st
          \<or> (\<exists>p. saved_crashes st' = saved_crashes st @ [(p, status_code obs)]))"
  using assms
  by (auto simp: handle_result_def Let_def split: if_splits sum.splits prod.splits)


lemma timed_run_fields:
  "files (timed_run conf obs st) = files st"
  "run_target_inputs (timed_run conf obs st) = run_target_inputs st @ [files st (current_input conf)]"
  "check_crash_calls (timed_run conf obs st) = check_crash_calls st"
  "saved_crashes (timed_run conf obs st) = saved_crashes st"
  "strategy (timed_run conf obs st) = strategy st"
  "seed_queue (timed_run conf obs st) = seed_queue st"
  "global_coverage (timed_run conf obs st) = global_coverage st"
  "edge_to_seeds (timed_run conf obs st) = edge_to_seeds st"
  by (simp_all add: timed_run_def run_target_def Let_def)

lemma fuzz_one_Inr:
  assumes "fuzz_one conf dictionary seed obs st = Inr st'"
  shows "\<exists>fs g. apply_operator conf dictionary
            (select_operator (strategy st) (explore obs) (op_draw obs)) seed (seed_queue st)
            (files st) (mut_rng obs) = Inr (fs, g)
         \<and> handle_result conf seed (select_operator (strategy st) (explore obs) (op_draw obs)) obs
              (timed_run conf obs (st\<lparr>files := fs\<rparr>)) = Inr st'"
  using assms
  by (auto simp: fuzz_one_def Let_def split: sum.splits)

lemma dry_run_one_logs:
  assumes "dry_run_one conf i seed_file obs st = Inr st'"
  shows "saved_crashes st' = saved_crashes st
       \<and> (if status_code obs = 9
          then check_crash_calls st' = check_crash_calls st \<and> seed_queue st' = seed_queue st
          else check_crash_calls st' = check_crash_calls st @ [status_code obs])"
  using assms
  by (auto simp: dry_run_one_def run_target_def Let_def
      split: sum.splits prod.splits if_splits)

lemma dry_run_one_unrecorded:
  assumes "dry_run_one conf i seed_file obs st = Inr st'" "timeouts_unrecorded st"
  shows "timeouts_unrecorded st'"
  using dry_run_one_logs [OF assms(1)] assms(2)
  by (auto simp: timeouts_unrecorded_def split: if_splits)

lemma dry_run_unrecorded:
  assumes "dry_run conf i seed_files st = Inr st'" "timeouts_unrecorded st"
  shows "timeouts_unrecorded st'"
  using assms
proof (induction seed_files arbitrary: i st)
  case Nil
  then show ?case by simp
next
  case (Cons a seed_files)
  obtain seed_file obs where a: "a = (seed_file, obs)"
    by (cases a)
  from Cons.prems(1) obtain st1 where
    st1: "dry_run_one conf i seed_file obs st = Inr st1"
         "dry_run conf (Suc i) seed_files st1 = Inr st'"
    by (auto simp: a split: sum.splits)
  from dry_run_one_unrecorded [OF st1(1) Cons.prems(2)] show ?case
    using Cons.IH st1(2) by blast
qed

lemma fuzz_one_logs:
  assumes "fuzz_one conf dictionary seed obs st = Inr st'"
  shows "if status_code obs = 9
         then check_crash_calls st' = check_crash_calls st \<and> saved_crashes st' = saved_crashes st
         else check_crash_calls st' = check_crash_calls st @ [status_code obs]
            \<and> (saved_crashes st' = saved_crashes st
               \<or> (\<exists>p. saved_crashes st' = saved_crashes st @ [(p, status_code obs)]))"
proof -
  from fuzz_one_Inr [OF assms] obtain fs g operator where
    h: "handle_result conf seed operator obs (timed_run conf obs (st\<lparr>files := fs\<rparr>)) = Inr st'"
    by blast
  show ?thesis
  proof (cases "status_code obs = 9")
    case True
    then have "st' = timed_run conf obs (st\<lparr>files := fs\<rparr>)"
      using h by (simp add: handle_result_timeout)
    then show ?thesis
      using True by (simp add: timed_run_fields)
  next
    case False
    from handle_result_logs [OF h False] show ?thesis
      using False by (simp add: timed_run_fields)
  qed
qed

lemma fuzz_one_unrecorded:
  assumes "fuzz_one conf dictionary seed obs st = Inr st'" "timeouts_unrecorded st"
  shows "timeouts_unrecorded st'"
  using fuzz_one_logs [OF assms(1)] assms(2)
  by (auto simp: timeouts_unrecorded_def split: if_splits)

lemma fuzz_many_unrecorded:
  assumes "fuzz_many conf dictionary seed observations st = Inr st'" "timeouts_unrecorded st"
  shows "timeouts_unrecorded st'"
  using assms
proof (induction observations arbitrary: st)
  case Nil
  then show ?case by simp
next
  case (Cons obs observations)
  from Cons.prems(1) obtain st1 where
    st1: "fuzz_one conf dictionary seed obs st = Inr st1"
         "fuzz_many conf dictionary seed observations st1 = Inr st'"
    by (auto split: sum.splits)
  from fuzz_one_unrecorded [OF st1(1) Cons.prems(2)] show ?case
    using Cons.IH st1(2) by blast
qed

lemma fuzz_cycle_unrecorded:
  assumes "fuzz_cycle conf dictionary coin pick obs st = Inr (stopped, st')" "timeouts_unrecorded st"
  shows "timeouts_unrecorded st'"
proof -
  from assms(1) obtain selected used count new_cycle where
    sel: "select_next_seed (seed_queue st) (seeds_used_in_cycle st) (cycle_seed_count st)
            coin pick = Inr (selected, used, count, new_cycle)"
    by (auto simp: fuzz_cycle_def split: sum.splits prod.splits)
  define st1 where "st1 = st\<lparr>seeds_used_in_cycle := used, cycle_seed_count := count\<rparr>"
  define marked where "marked =
    (if new_cycle
     then (case update_favored_seeds (seed_queue st1) (edge_to_seeds st1) of
             Inl e \<Rightarrow> Inl e
           | Inr q \<Rightarrow> Inr (st1\<lparr>cycle_count := cycle_count st1 + 1, seed_queue := q\<rparr>))
     else Inr st1)"
  have unfold: "fuzz_cycle conf dictionary coin pick obs st =
     (case marked of
        Inl e \<Rightarrow> Inl e
      | Inr st \<Rightarrow>
          (case selected of
             None \<Rightarrow> Inr (True, st)
           | Some seed \<Rightarrow>
               (case fuzz_many conf dictionary seed
                       (map obs [0..<nat (get_power_schedule seed (avg_exec_time st))]) st of
                  Inl e \<Rightarrow> Inl e
                | Inr st \<Rightarrow> Inr (False, st))))"
    unfolding fuzz_cycle_def Let_def marked_def st1_def by (simp add: sel)
  with assms(1) obtain st2 where st2: "marked = Inr st2"
    by (cases marked) auto
  then have "check_crash_calls st2 = check_crash_calls st" "saved_crashes st2 = saved_crashes st"
    by (auto simp: marked_def st1_def split: if_splits sum.splits)
  then have inv2: "timeouts_unrecorded st2"
    using assms(2) by (simp add: timeouts_unrecorded_def)
  show ?thesis
  proof (cases selected)
    case None
    then have "st' = st2"
      using assms(1) unfold st2 by simp
    then show ?thesis
      using inv2 by simp
  next
    case (Some seed)
    then have "fuzz_many conf dictionary seed
        (map obs [0..<nat (get_power_schedule seed (avg_exec_time st2))]) st2 = Inr st'"
      using assms(1) unfold st2 by (auto split: sum.splits)
    from fuzz_many_unrecorded [OF this inv2] show ?thesis .
  qed
qed

lemma fuzz_loop_unrecorded:
  assumes "fuzz_loop conf dictionary rounds st = Inr (stopped, st')" "timeouts_unrecorded st"
  shows "timeouts_unrecorded st'"
  using assms
proof (induction rounds arbitrary: st)
  case Nil
  then show ?case by simp
next
  case (Cons a rounds)
  obtain coin pick obs where a: "a = (coin, pick, obs)"
    by (cases a)
  from Cons.prems(1) obtain s st1 where
    st1: "fuzz_cycle conf dictionary coin pick obs st = Inr (s, st1)"
         "(s \<and> st' = st1) \<or> (\<not> s \<and> fuzz_loop conf dictionary rounds st1 = Inr (stopped, st'))"
    by (auto simp: a split: sum.splits prod.splits if_splits)
  from fuzz_cycle_unrecorded [OF st1(1) Cons.prems(2)] show ?case
    using Cons.IH st1(2) by blast
qed

lemma run_fuzzing_unrecorded:
  assumes "run_fuzzing conf dictionary seed_files rounds fs = Inr (stopped, st')"
  shows "timeouts_unrecorded st'"
proof -
  from assms obtain st0 where d: "dry_run conf 0 seed_files (initial_state fs) = Inr st0"
    by (auto simp: run_fuzzing_def split: sum.splits)
  with assms obtain q where
    l: "fuzz_loop conf dictionary rounds
         (st0\<lparr>avg_exec_time :=
                (if exec_count st0 > 0 then total_exec_time st0 / real (exec_count st0) else 0.1),
              seed_queue := q, seeds_used_in_cycle := Some {},
              cycle_seed_count := Some (length q), cycle_count := 0,
              strategy := new_mutation_strategy\<rparr>) = Inr (stopped, st')"
    by (auto simp: run_fuzzing_def Let_def split: sum.splits)
  have "timeouts_unrecorded (initial_state fs)"
    by (simp add: timeouts_unrecorded_def initial_state_def)
  from dry_run_unrecorded [OF d this]
  have "timeouts_unrecorded
         (st0\<lparr>avg_exec_time :=
                (if exec_count st0 > 0 then total_exec_time st0 / real (exec_count st0) else 0.1),
              seed_queue := q, seeds_used_in_cycle := Some {},
              cycle_seed_count := Some (length q), cycle_count := 0,
              strategy := new_mutation_strategy\<rparr>)"
    by (simp add: timeouts_unrecorded_def)
  from fuzz_loop_unrecorded [OF l this] show ?thesis .
qed

lemma dry_run_one_timeout:
  assumes "status_code obs = 9" "dry_run_one conf i seed_file obs st = Inr st'"
  shows "\<exists>fs. copyfile (path_join (queue_folder conf) seed_file) (current_input conf) (files st) = Inr fs
            \<and> st' = run_target conf (st\<lparr>files := fs\<rparr>)"
  using assms
  by (auto simp: dry_run_one_def Let_def split: sum.splits)

lemma copyfile_others:
  "copyfile src dst fs = Inr fs' \<Longrightarrow> p \<noteq> dst \<Longrightarrow> fs' p = fs p"
  by (auto simp: copyfile_def split: option.splits if_splits)

lemma fuzz_one_timeout:
  assumes "status_code obs = 9" "fuzz_one conf dictionary seed obs st = Inr st'"
  shows "\<exists>fs g. apply_operator conf dictionary
            (select_operator (strategy st) (explore obs) (op_draw obs)) seed (seed_queue st)
            (files st) (mut_rng obs) = Inr (fs, g)
          \<and> st' = timed_run conf obs (st\<lparr>files := fs\<rparr>)"
  using fuzz_one_Inr [OF assms(2)] assms(1)
  by (auto simp: handle_result_timeout)

text \<open>What a round of the dry run and the handling of a result do, case by case.\<close>

lemma dry_run_one_skip:
  assumes "copyfile (path_join (queue_folder conf) seed_file) (current_input conf) (files st) = Inr fs"
    and "status_code obs = 9 \<or> check_crash (status_code obs)"
  shows "\<exists>st'. dry_run_one conf i seed_file obs st = Inr st'
           \<and> seed_queue st' = seed_queue st \<and> edge_to_seeds st' = edge_to_seeds st
           \<and> global_coverage st' = global_coverage st \<and> files st' = fs
           \<and> exec_count st' = exec_count st \<and> total_exec_time st' = total_exec_time st"
  using assms by (auto simp: dry_run_one_def run_target_def Let_def)

lemma dry_run_one_admit:
  assumes "copyfile (path_join (queue_folder conf) seed_file) (current_input conf) (files st) = Inr fs"
    and "status_code obs \<noteq> 9" "\<not> check_crash (status_code obs)"
    and "fs (path_join (queue_folder conf) seed_file) = Some data"
  shows "\<exists>st'. dry_run_one conf i seed_file obs st = Inr st'
           \<and> seed_queue st' = seed_queue st @
                [\<lparr>path = path_join (queue_folder conf) seed_file, seed_id = i,
                  coverage = snd (check_coverage (trace_bits obs) (global_coverage st)),
                  exec_time = run_time obs, file_size = length data, favored = False\<rparr>]
           \<and> edge_to_seeds st' =
                add_edges i (snd (check_coverage (trace_bits obs) (global_coverage st)))
                  (edge_to_seeds st)
           \<and> global_coverage st' =
                global_coverage st \<union> snd (check_coverage (trace_bits obs) (global_coverage st))
           \<and> files st' = fs
           \<and> exec_count st' = exec_count st + 1
           \<and> total_exec_time st' = total_exec_time st + run_time obs"
  using assms
  by (auto simp: dry_run_one_def run_target_def new_seed_def Let_def split: prod.splits)

lemma handle_result_plain:
  assumes "status_code obs \<noteq> 9" "\<not> check_crash (status_code obs)"
    and "\<not> fst (check_coverage (trace_bits obs) (global_coverage st))"
  shows "handle_result conf seed operator obs st
       = Inr (st\<lparr>check_crash_calls := check_crash_calls st @ [status_code obs]\<rparr>)"
  using assms by (auto simp: handle_result_def Let_def split: prod.splits)

lemma handle_result_reward:
  assumes "handle_result conf seed operator obs st = Inr st'"
    and "status_code obs \<noteq> 9" "\<not> check_crash (status_code obs)"
  shows "if fst (check_coverage (trace_bits obs) (global_coverage st))
         then strategy st' = update_rewards (strategy st) operator 0 False
         else strategy st' = strategy st"
proof -
  have zero: "card (cov - (g \<union> cov)) = 0" for cov g :: "nat set"
    by (metis Diff_eq_empty_iff Un_upper2 card.empty)
  show ?thesis
    using assms
    by (auto simp: handle_result_def Let_def zero split: prod.splits sum.splits if_splits)
qed

lemma handle_result_new:
  assumes "status_code obs \<noteq> 9" "\<not> check_crash (status_code obs)"
    and "fst (check_coverage (trace_bits obs) (global_coverage st))"
    and "files st (current_input conf) = Some data"
    and "current_input conf \<noteq>
           path_join (queue_folder conf) (''id_'' @ str_nat (length (seed_queue st)))"
  shows "\<exists>st'. handle_result conf seed operator obs st = Inr st'
           \<and> seed_queue st' = seed_queue st @
                [\<lparr>path = path_join (queue_folder conf) (''id_'' @ str_nat (length (seed_queue st))),
                  seed_id = length (seed_queue st),
                  coverage = snd (check_coverage (trace_bits obs) (global_coverage st)),
                  exec_time = run_time obs, file_size = length data, favored = False\<rparr>]"
  using assms
  by (auto simp: handle_result_def copyfile_def new_seed_def Let_def split: prod.splits)

lemma fuzz_one_from_stages:
  assumes "apply_operator conf dictionary
            (select_operator (strategy st) (explore obs) (op_draw obs)) seed (seed_queue st)
            (files st) (mut_rng obs) = Inr (fs, g)"
  shows "fuzz_one conf dictionary seed obs st
       = handle_result conf seed (select_operator (strategy st) (explore obs) (op_draw obs)) obs
           (timed_run conf obs (st\<lparr>files := fs\<rparr>))"
  using assms by (simp add: fuzz_one_def Let_def)

lemma apply_operator_havoc_total:
  assumes "fs (path seed) = Some data"
  shows "\<exists>fs' g'. apply_operator conf dictionary Havoc seed queue fs g = Inr (fs', g')
           \<and> (\<exists>data'. fs' (current_input conf) = Some data' \<or> (length data < 8 \<and> fs' = fs))"
proof (cases "length data < 8")
  case True
  then show ?thesis
    using assms by (simp add: apply_operator_def havoc_mutate_def)
next
  case False
  then have "8 \<le> length data"
    by simp
  from havoc_mutate_long [of fs seed data dictionary g conf, OF assms this] show ?thesis
    by (auto simp: apply_operator_def)
qed


text \<open>The example data, evaluated.\<close>

lemma check_coverage_examples:
  "check_coverage [1] {} = (True, {0})"
  "check_coverage [1] {0} = (False, {0})"
  "check_coverage [1, 1] {0} = (True, {0, 1})"
proof -
  have t: "take MAP_SIZE [1 :: byte] = [1]" "take MAP_SIZE [1, 1 :: byte] = [1, 1]"
    by (simp_all add: MAP_SIZE_def)
  have u: "[0..<length [1 :: byte]] = [0]" "[0..<length [1, 1 :: byte]] = [0, 1]"
    by (simp_all add: upt_rec)
  show "check_coverage [1] {} = (True, {0})"
    unfolding check_coverage_def Let_def t u by simp
  show "check_coverage [1] {0} = (False, {0})"
    unfolding check_coverage_def Let_def t u by simp
  show "check_coverage [1, 1] {0} = (True, {0, 1})"
    unfolding check_coverage_def Let_def t u by auto
qed

lemma check_crash_examples:
  "check_crash 139" "\<not> check_crash 0" "check_crash 9"
  by (simp_all add: check_crash_def crash_signals_def)

lemma example_state_fields:
  "strategy (example_state n data input) = new_mutation_strategy"
  "files (example_state n data input) = example_files data input"
  "seed_queue (example_state n data input) = [example_seed n]"
  "global_coverage (example_state n data input) = {0}"
  "run_target_inputs (example_state n data input) = []"
  "check_crash_calls (example_state n data input) = []"
  "saved_crashes (example_state n data input) = []"
  by (simp_all add: initial_state_def)

lemma example_operator:
  "select_operator new_mutation_strategy False 0 = Havoc"
  by (simp add: select_operator_def new_mutation_strategy_def)

lemma example_stages:
  assumes "havoc_mutate example_conf [] (example_seed n) (example_files data input) (\<lambda>n. 0)
             = Inr (fs, g)"
  shows "fuzz_one example_conf [] (example_seed n) (example_obs status bitmap)
           (example_state n data input)
       = handle_result example_conf (example_seed n) Havoc (example_obs status bitmap)
           (timed_run example_conf (example_obs status bitmap)
              ((example_state n data input)\<lparr>files := fs\<rparr>))"
proof -
  have "apply_operator example_conf []
          (select_operator (strategy (example_state n data input))
             (explore (example_obs status bitmap)) (op_draw (example_obs status bitmap)))
          (example_seed n) (seed_queue (example_state n data input))
          (files (example_state n data input)) (mut_rng (example_obs status bitmap)) = Inr (fs, g)"
    unfolding example_state_fields using assms
    by (simp add: example_operator apply_operator_def)
  from fuzz_one_from_stages [OF this] show ?thesis
    unfolding example_state_fields by (simp add: example_operator)
qed

lemma example_short_run:
  assumes "status = 9 \<or> (\<not> check_crash status \<and> bitmap = [1])"
  shows "\<exists>st'. fuzz_one example_conf [] (example_seed 4) (example_obs status bitmap)
           (example_state 4 [1, 2, 3, 4] input) = Inr st'"
proof -
  let ?data = "[1, 2, 3, 4] :: bytes"
  have "example_files ?data input (path (example_seed 4)) = Some ?data" "length ?data < 8"
    by simp_all
  then have m: "havoc_mutate example_conf [] (example_seed 4) (example_files ?data input) (\<lambda>n. 0)
      = Inr (example_files ?data input, \<lambda>n. 0)"
    by (rule havoc_mutate_short)
  note stages = example_stages [OF m, of status bitmap]
  show ?thesis
  proof (cases "status = 9")
    case True
    then show ?thesis
      unfolding stages by (simp add: handle_result_timeout)
  next
    case False
    then have "\<not> check_crash status" "bitmap = [1]"
      using assms by simp_all
    then show ?thesis
      unfolding stages using False
      by (subst handle_result_plain)
        (simp_all add: timed_run_fields initial_state_def check_coverage_examples)
  qed
qed

subsection \<open>Timeouts\<close>

text \<open>
  C6. Status 9 is in the crash-signal set, so \<open>check_crash 9\<close> holds; but a round of the
  dry run and a round of the fuzzing loop whose run returns status 9 end before
  \<open>check_crash\<close> is called: the statuses \<open>check_crash\<close> was called on and the crashes
  saved are as before, no file other than \<open>current_input\<close> is written (so no crash
  file), the queue is as before and, in the fuzzing loop, so is the bandit. Over a whole
  run of \<open>run_fuzzing\<close>, dry run and loop, status 9 is never passed to \<open>check_crash\<close>
  and never saved as a crash.
\<close>

theorem timeout_skipped_before_check_crash:
  "check_crash 9
   \<and> (status_code obs = 9 \<and> dry_run_one conf i seed_file obs st = Inr st' \<longrightarrow>
        check_crash_calls st' = check_crash_calls st \<and> saved_crashes st' = saved_crashes st
        \<and> seed_queue st' = seed_queue st
        \<and> (\<forall>p. p \<noteq> current_input conf \<longrightarrow> files st' p = files st p))
   \<and> (status_code obs = 9 \<and> fuzz_one conf dictionary seed obs st = Inr st'' \<longrightarrow>
        check_crash_calls st'' = check_crash_calls st \<and> saved_crashes st'' = saved_crashes st
        \<and> strategy st'' = strategy st \<and> seed_queue st'' = seed_queue st
        \<and> (\<forall>p. p \<noteq> current_input conf \<longrightarrow> files st'' p = files st p))
   \<and> (run_fuzzing conf dictionary seed_files rounds fs = Inr (stopped, final) \<longrightarrow>
        timeouts_unrecorded final)"
proof (intro conjI impI)
  show "check_crash 9"
    by (simp add: check_crash_def crash_signals_def)
next
  assume a: "status_code obs = 9 \<and> dry_run_one conf i seed_file obs st = Inr st'"
  then obtain fs' where
    fs': "copyfile (path_join (queue_folder conf) seed_file) (current_input conf) (files st) = Inr fs'"
      "st' = run_target conf (st\<lparr>files := fs'\<rparr>)"
    using dry_run_one_timeout by blast
  show "check_crash_calls st' = check_crash_calls st"
    and "saved_crashes st' = saved_crashes st"
    and "seed_queue st' = seed_queue st"
    by (simp_all add: fs'(2) run_target_def)
  show "\<forall>p. p \<noteq> current_input conf \<longrightarrow> files st' p = files st p"
    using copyfile_others [OF fs'(1)] by (simp add: fs'(2) run_target_def)
next
  assume a: "status_code obs = 9 \<and> fuzz_one conf dictionary seed obs st = Inr st''"
  then obtain fs' g where
    fs': "apply_operator conf dictionary
            (select_operator (strategy st) (explore obs) (op_draw obs)) seed (seed_queue st)
            (files st) (mut_rng obs) = Inr (fs', g)"
      "st'' = timed_run conf obs (st\<lparr>files := fs'\<rparr>)"
    using fuzz_one_timeout by blast
  show "check_crash_calls st'' = check_crash_calls st"
    and "saved_crashes st'' = saved_crashes st"
    and "strategy st'' = strategy st"
    and "seed_queue st'' = seed_queue st"
    by (simp_all add: fs'(2) timed_run_fields)
  show "\<forall>p. p \<noteq> current_input conf \<longrightarrow> files st'' p = files st p"
    using apply_operator_frame [OF fs'(1)] by (simp add: fs'(2) timed_run_fields)
next
  assume "run_fuzzing conf dictionary seed_files rounds fs = Inr (stopped, final)"
  then show "timeouts_unrecorded final"
    by (rule run_fuzzing_unrecorded)
qed

theorem timeout_skipped_before_check_crash_witness:
  "(\<exists>st'. dry_run_one example_conf 0 ''s0'' (example_obs 9 [])
             (initial_state [''q/s0'' \<mapsto> [1, 2, 3, 4]]) = Inr st'
          \<and> check_crash_calls st' = [] \<and> saved_crashes st' = [] \<and> seed_queue st' = [])
   \<and> (\<exists>st''. fuzz_one example_conf [] (example_seed 4) (example_obs 9 [])
              (example_state 4 [1, 2, 3, 4] [1, 2, 3, 4]) = Inr st''
          \<and> check_crash_calls st'' = [] \<and> saved_crashes st'' = []
          \<and> strategy st'' = new_mutation_strategy)
   \<and> (\<exists>stopped final. run_fuzzing example_conf [] [(''s0'', example_obs 9 [])] []
              [''q/s0'' \<mapsto> [1, 2, 3, 4]] = Inr (stopped, final)
          \<and> timeouts_unrecorded final)"
proof (intro conjI)
  let ?fs = "[''q/s0'' \<mapsto> [1, 2, 3, 4 :: byte]]"
  have "copyfile (path_join (queue_folder example_conf) ''s0'') (current_input example_conf)
          (files (initial_state ?fs)) = Inr (?fs(''cur'' \<mapsto> [1, 2, 3, 4]))"
    by (simp add: copyfile_def path_join_def initial_state_def)
  from dry_run_one_skip [OF this, of "example_obs 9 []" 0] obtain st1 where
    st1: "dry_run_one example_conf 0 ''s0'' (example_obs 9 []) (initial_state ?fs) = Inr st1"
      "seed_queue st1 = []" "edge_to_seeds st1 = []"
    by (auto simp: initial_state_def)
  from timeout_skipped_before_check_crash
    [where obs = "example_obs 9 []" and conf = example_conf and i = 0 and seed_file = "''s0''"
       and st = "initial_state ?fs" and st' = st1] st1(1)
  have "check_crash_calls st1 = []" "saved_crashes st1 = []" "seed_queue st1 = []"
    by (simp_all add: initial_state_def)
  then show "\<exists>st'. dry_run_one example_conf 0 ''s0'' (example_obs 9 []) (initial_state ?fs) = Inr st'
          \<and> check_crash_calls st' = [] \<and> saved_crashes st' = [] \<and> seed_queue st' = []"
    using st1(1) by blast
  have d: "dry_run example_conf 0 [(''s0'', example_obs 9 [])] (initial_state ?fs) = Inr st1"
    using st1(1) by simp
  have "\<exists>final. run_fuzzing example_conf [] [(''s0'', example_obs 9 [])] [] ?fs = Inr (False, final)"
    unfolding run_fuzzing_def Let_def d
    by (simp add: st1 update_favored_seeds_def)
  then obtain final where
    final: "run_fuzzing example_conf [] [(''s0'', example_obs 9 [])] [] ?fs = Inr (False, final)"
    by blast
  from timeout_skipped_before_check_crash
    [where conf = example_conf and dictionary = "[]"
       and seed_files = "[(''s0'', example_obs 9 [])]" and rounds = "[]" and fs = ?fs
       and stopped = False and final = final] final
  have "timeouts_unrecorded final"
    by blast
  then show "\<exists>stopped final. run_fuzzing example_conf [] [(''s0'', example_obs 9 [])] [] ?fs
                 = Inr (stopped, final) \<and> timeouts_unrecorded final"
    using final by blast
next
  let ?st = "example_state 4 [1, 2, 3, 4] [1, 2, 3, 4]"
  from example_short_run [of 9 "[]" "[1, 2, 3, 4]"] obtain st2 where
    st2: "fuzz_one example_conf [] (example_seed 4) (example_obs 9 []) ?st = Inr st2"
    by auto
  from timeout_skipped_before_check_crash
    [where obs = "example_obs 9 []" and conf = example_conf and st = ?st and dictionary = "[]"
       and seed = "example_seed 4" and st'' = st2] st2
  have "check_crash_calls st2 = []" "saved_crashes st2 = []" "strategy st2 = new_mutation_strategy"
    by (simp_all add: initial_state_def)
  then show "\<exists>st''. fuzz_one example_conf [] (example_seed 4) (example_obs 9 []) ?st = Inr st''
          \<and> check_crash_calls st'' = [] \<and> saved_crashes st'' = []
          \<and> strategy st'' = new_mutation_strategy"
    using st2 by blast
qed

subsection \<open>Seeds shorter than 8 bytes\<close>







subsection \<open>Seed ids in the dry run\<close>

text \<open>
  C1. The claim fails on the code, which contradicts itself: the dry run gives a seed the
  index of its file in the directory listing, not its position in the queue, while the
  fuzzing loop takes the queue length as the id and \<open>update_favored_seeds\<close> uses the id
  as a queue position. With two seed files of which the first crashes in the dry run, the
  second is admitted as the first seed of the queue with id 1, and the favored pass that
  follows the dry run raises IndexError.
\<close>

theorem dry_run_skip_shifts_ids:
  "map_sum id (\<lambda>st. map seed_id (seed_queue st))
     (dry_run example_conf 0 [(''s0'', example_obs 139 []), (''s1'', example_obs 0 [1])]
        (initial_state [''q/s0'' \<mapsto> [1, 2, 3, 4], ''q/s1'' \<mapsto> [5, 6, 7, 8]]))
   = Inr [1]
   \<and> run_fuzzing example_conf [] [(''s0'', example_obs 139 []), (''s1'', example_obs 0 [1])] []
        [''q/s0'' \<mapsto> [1, 2, 3, 4], ''q/s1'' \<mapsto> [5, 6, 7, 8]]
   = Inl IndexError"
proof -
  let ?fs = "[''q/s0'' \<mapsto> [1, 2, 3, 4], ''q/s1'' \<mapsto> [5, 6, 7, 8 :: byte]]"
  have "copyfile (path_join (queue_folder example_conf) ''s0'') (current_input example_conf)
          (files (initial_state ?fs)) = Inr (?fs(''cur'' \<mapsto> [1, 2, 3, 4]))"
    by (simp add: copyfile_def path_join_def initial_state_def)
  from dry_run_one_skip [OF this, of "example_obs 139 []" 0] obtain st1 where
    st1: "dry_run_one example_conf 0 ''s0'' (example_obs 139 []) (initial_state ?fs) = Inr st1"
      "seed_queue st1 = []" "edge_to_seeds st1 = []" "global_coverage st1 = {}"
      "files st1 = ?fs(''cur'' \<mapsto> [1, 2, 3, 4])"
    by (auto simp: check_crash_examples initial_state_def)
  have "copyfile (path_join (queue_folder example_conf) ''s1'') (current_input example_conf)
          (files st1) = Inr (?fs(''cur'' \<mapsto> [5, 6, 7, 8]))"
    by (simp add: copyfile_def path_join_def st1(5))
  from dry_run_one_admit [OF this, of "example_obs 0 [1]" "[5, 6, 7, 8]" 1] obtain st2 where
    st2: "dry_run_one example_conf 1 ''s1'' (example_obs 0 [1]) st1 = Inr st2"
      "seed_queue st2 = [\<lparr>path = ''q/s1'', seed_id = 1, coverage = {0}, exec_time = 1,
                           file_size = 4, favored = False\<rparr>]"
      "edge_to_seeds st2 = add_edges 1 {0} []"
    by (auto simp: check_crash_examples check_coverage_examples path_join_def st1)
  have d: "dry_run example_conf 0 [(''s0'', example_obs 139 []), (''s1'', example_obs 0 [1])]
        (initial_state ?fs) = Inr st2"
    using st1(1) st2(1) by simp
  have "update_favored_seeds (seed_queue st2) (edge_to_seeds st2) = Inl IndexError"
    by (simp add: st2 add_edges_def add_edge_def update_favored_seeds_def mark_edge_def)
  then have "run_fuzzing example_conf [] [(''s0'', example_obs 139 []), (''s1'', example_obs 0 [1])] []
        ?fs = Inl IndexError"
    unfolding run_fuzzing_def Let_def d by simp
  then show ?thesis
    using d st2(2) by simp
qed

subsection \<open>The bandit update\<close>

text \<open>
  C2. The claim fails on the code, by two slips. \<open>update_rewards\<close> is called only in the
  crash branch and in the new-coverage branch, so after a run that neither times out nor
  crashes nor finds a new edge the use counts stay as they were; and in the new-coverage
  branch the reward is the size of the run's coverage minus the global coverage, taken
  after the run's coverage was merged into the global coverage, which is 0. Here the queue
  holds one seed covering edge 0: a run that covers edge 0 alone leaves the bandit
  untouched, and a run that covers the new edge 1 as well counts one use of havoc and a
  reward of 0.
\<close>

theorem bandit_not_updated_without_new_coverage:
  "map_sum id strategy
     (fuzz_one example_conf [] (example_seed 8) (example_obs 0 [1])
        (example_state 8 [1, 2, 3, 4, 5, 6, 7, 8] [1, 2, 3, 4, 5, 6, 7, 8]))
   = Inr new_mutation_strategy
   \<and> map_sum id strategy
     (fuzz_one example_conf [] (example_seed 8) (example_obs 0 [1, 1])
        (example_state 8 [1, 2, 3, 4, 5, 6, 7, 8] [1, 2, 3, 4, 5, 6, 7, 8]))
   = Inr (new_mutation_strategy\<lparr>havoc_uses := 1\<rparr>)"
proof -
  let ?data = "[1, 2, 3, 4, 5, 6, 7, 8] :: bytes"
  let ?st = "example_state 8 ?data ?data"
  have "example_files ?data ?data (path (example_seed 8)) = Some ?data" "8 \<le> length ?data"
    by simp_all
  then have "\<exists>data' g'. havoc_bytes [] ?data (\<lambda>n. 0) = Inr (data', g')
           \<and> havoc_mutate example_conf [] (example_seed 8) (example_files ?data ?data) (\<lambda>n. 0)
               = Inr ((example_files ?data ?data)(current_input example_conf \<mapsto> data'), g')"
    by (rule havoc_mutate_long)
  then obtain data' g where
    m: "havoc_mutate example_conf [] (example_seed 8) (example_files ?data ?data) (\<lambda>n. 0)
          = Inr (example_files ?data data', g)"
    by auto
  let ?ran = "\<lambda>bitmap. timed_run example_conf (example_obs 0 bitmap)
                 (?st\<lparr>files := example_files ?data data'\<rparr>)"
  note stages = example_stages [OF m, of 0]
  have ran: "global_coverage (?ran bitmap) = {0}" "strategy (?ran bitmap) = new_mutation_strategy"
    "seed_queue (?ran bitmap) = [example_seed 8]" "files (?ran bitmap) = example_files ?data data'"
    for bitmap
    by (simp_all add: timed_run_fields initial_state_def)
  have "handle_result example_conf (example_seed 8) Havoc (example_obs 0 [1]) (?ran [1])
      = Inr ((?ran [1])\<lparr>check_crash_calls :=
                check_crash_calls (?ran [1]) @ [status_code (example_obs 0 [1])]\<rparr>)"
    by (rule handle_result_plain) (simp_all add: ran check_crash_examples check_coverage_examples)
  then have first: "map_sum id strategy
     (fuzz_one example_conf [] (example_seed 8) (example_obs 0 [1]) ?st) = Inr new_mutation_strategy"
    unfolding stages by (simp add: ran)
  have "\<exists>st'. handle_result example_conf (example_seed 8) Havoc (example_obs 0 [1, 1]) (?ran [1, 1])
           = Inr st'
         \<and> seed_queue st' = seed_queue (?ran [1, 1]) @
                [\<lparr>path = path_join (queue_folder example_conf)
                           (''id_'' @ str_nat (length (seed_queue (?ran [1, 1])))),
                  seed_id = length (seed_queue (?ran [1, 1])),
                  coverage = snd (check_coverage (trace_bits (example_obs 0 [1, 1]))
                                    (global_coverage (?ran [1, 1]))),
                  exec_time = run_time (example_obs 0 [1, 1]), file_size = length data',
                  favored = False\<rparr>]"
    by (rule handle_result_new)
      (simp_all add: ran check_crash_examples check_coverage_examples path_join_def str_nat.simps)
  then obtain st' where
    st': "handle_result example_conf (example_seed 8) Havoc (example_obs 0 [1, 1]) (?ran [1, 1])
            = Inr st'"
    by blast
  from handle_result_reward [OF this]
  have "strategy st' = update_rewards new_mutation_strategy Havoc 0 False"
    by (simp add: ran check_crash_examples check_coverage_examples)
  then have "strategy st' = new_mutation_strategy\<lparr>havoc_uses := 1\<rparr>"
    by (simp add: update_rewards_def new_mutation_strategy_def)
  then have "map_sum id strategy
     (fuzz_one example_conf [] (example_seed 8) (example_obs 0 [1, 1]) ?st)
      = Inr (new_mutation_strategy\<lparr>havoc_uses := 1\<rparr>)"
    unfolding stages st' by simp
  with first show ?thesis
    by simp
qed

end
